theory Spec2Isabelle
  imports Main
begin

section \<open>The event engine of howtrader (howtrader/event/engine.py)\<close>

subsection \<open>Events, handlers, exceptions, threads\<close>

text \<open>
  The payload of an event is \<open>Any\<close> in the source; the engine never looks at it.
  A small universe of values stands for it.
\<close>

datatype any = PyNone | PyInt int | PyStr string

record Event =
  type :: string
  data :: any

definition EVENT_TIMER :: string where
  "EVENT_TIMER = ''eTimer''"

text \<open>
  A handler is a callable \<open>Callable[[Event], None]\<close>. The engine only stores it, compares
  it (\<open>in\<close>, \<open>list.remove\<close>) and calls it, so a handler is modelled by its identity.
\<close>

type_synonym HandlerType = nat

text \<open>
  The exceptions of the model: those the engine's own statements raise, \<open>queue.Empty\<close>
  (raised by \<open>queue.get\<close> on a timeout, and by any handler that chooses to), and the other
  exceptions a handler may raise, told apart by a number.
\<close>

datatype error = ZeroDivisionError | IndexError | RuntimeError | Empty | HandlerError nat

text \<open>
  A \<open>threading.Thread\<close> object: created, started and running, or terminated.
  \<open>start()\<close> raises \<open>RuntimeError\<close> unless the thread is freshly created;
  \<open>join()\<close> raises \<open>RuntimeError\<close> on a thread that was never started, and otherwise
  returns once the thread has terminated.
\<close>

datatype Thread = Unstarted | Alive | Finished

definition Thread_start :: "Thread \<Rightarrow> error + Thread" where
  "Thread_start t = (case t of Unstarted \<Rightarrow> Inr Alive | _ \<Rightarrow> Inl RuntimeError)"

definition Thread_join :: "Thread \<Rightarrow> error + Thread" where
  "Thread_join t = (case t of Unstarted \<Rightarrow> Inl RuntimeError | _ \<Rightarrow> Inr Finished)"

text \<open>Indexing a Python list by an integer: negative indices count from the end.\<close>

definition list_index :: "'a list \<Rightarrow> int \<Rightarrow> nat option" where
  "list_index xs i =
     (let len = int (length xs); j = (if i < 0 then len + i else i)
      in if 0 \<le> j \<and> j < len then Some (nat j) else None)"

subsection \<open>The engine\<close>

record EventEngine =
  interval :: int
  n :: int
  queues :: "Event list list"
  threads :: "Thread list"
  active :: bool
  timer :: Thread
  handlers :: "string \<rightharpoonup> HandlerType list"
  general_handlers :: "HandlerType list"

text \<open>
  \<open>__init__\<close>: the loop over \<open>range(n)\<close> appends one queue and one worker thread per
  round; \<open>range\<close> of a non-positive number is empty. There is no check of the arguments
  and no \<open>raise\<close>.
\<close>

definition init_loop :: "int \<Rightarrow> Event list list \<times> Thread list" where
  "init_loop k = foldl (\<lambda>(qs, ts) i. (qs @ [[]], ts @ [Unstarted])) ([], []) [0..<nat k]"

definition EventEngine_init :: "int \<Rightarrow> int \<Rightarrow> EventEngine" where
  "EventEngine_init interval0 n0 =
     (let (qs, ts) = init_loop n0
      in \<lparr>interval = interval0, n = n0, queues = qs, threads = ts, active = False,
          timer = Unstarted, handlers = Map.empty, general_handlers = []\<rparr>)"

text \<open>
  The constructor call \<open>EventEngine(interval, n)\<close> as a fallible operation: its only
  outcome is the object that \<open>__init__\<close> has filled in.
\<close>

definition construct :: "int \<Rightarrow> int \<Rightarrow> error + EventEngine" where
  "construct interval0 n0 = Inr (EventEngine_init interval0 n0)"

subsection \<open>The registry\<close>

text \<open>
  \<open>self._handlers\<close> is a \<open>defaultdict(list)\<close>: reading a missing key stores an empty list
  under it and returns that list.
\<close>

definition defaultdict_getitem ::
  "(string \<rightharpoonup> HandlerType list) \<Rightarrow> string \<Rightarrow> HandlerType list \<times> (string \<rightharpoonup> HandlerType list)" where
  "defaultdict_getitem d k = (case d k of Some v \<Rightarrow> (v, d) | None \<Rightarrow> ([], d(k \<mapsto> [])))"

text \<open>
  \<open>handler_list\<close> is the list object held by the dictionary, so appending to it or
  removing from it changes the dictionary's entry.
\<close>

definition register :: "EventEngine \<Rightarrow> string \<Rightarrow> HandlerType \<Rightarrow> EventEngine" where
  "register self ty handler =
     (let (handler_list, d) = defaultdict_getitem (handlers self) ty
      in if handler \<notin> set handler_list
         then self\<lparr>handlers := d(ty \<mapsto> handler_list @ [handler])\<rparr>
         else self\<lparr>handlers := d\<rparr>)"

text \<open>
  In \<open>unregister\<close> the key is always present when \<open>pop\<close> runs (the read above it has
  created it), so \<open>pop\<close> cannot raise \<open>KeyError\<close>.
\<close>

definition unregister :: "EventEngine \<Rightarrow> string \<Rightarrow> HandlerType \<Rightarrow> EventEngine" where
  "unregister self ty handler =
     (let (handler_list, d) = defaultdict_getitem (handlers self) ty;
          handler_list' = (if handler \<in> set handler_list
                           then remove1 handler handler_list else handler_list)
      in if handler_list' = []
         then self\<lparr>handlers := (d(ty \<mapsto> handler_list'))(ty := None)\<rparr>
         else self\<lparr>handlers := d(ty \<mapsto> handler_list')\<rparr>)"

definition register_general :: "EventEngine \<Rightarrow> HandlerType \<Rightarrow> EventEngine" where
  "register_general self handler =
     (if handler \<notin> set (general_handlers self)
      then self\<lparr>general_handlers := general_handlers self @ [handler]\<rparr>
      else self)"

definition unregister_general :: "EventEngine \<Rightarrow> HandlerType \<Rightarrow> EventEngine" where
  "unregister_general self handler =
     (if handler \<in> set (general_handlers self)
      then self\<lparr>general_handlers := remove1 handler (general_handlers self)\<rparr>
      else self)"

text \<open>A call of one of the four registry operations, and a sequence of such calls.\<close>

datatype registry_call =
    Register string HandlerType
  | Unregister string HandlerType
  | RegisterGeneral HandlerType
  | UnregisterGeneral HandlerType

fun registry_apply :: "EventEngine \<Rightarrow> registry_call \<Rightarrow> EventEngine" where
  "registry_apply self (Register ty h) = register self ty h"
| "registry_apply self (Unregister ty h) = unregister self ty h"
| "registry_apply self (RegisterGeneral h) = register_general self h"
| "registry_apply self (UnregisterGeneral h) = unregister_general self h"

subsection \<open>Dispatch\<close>

text \<open>
  What a call of a handler does is given by a behaviour: on an event and a state of the
  world outside the engine, the handler returns (\<open>None\<close>) or raises an exception
  (\<open>Some x\<close>), leaves a new state of the world, and has by then made a sequence of calls
  to the registry of the engine (\<open>register\<close>, \<open>unregister\<close>, \<open>register_general\<close>,
  \<open>unregister_general\<close>). A \<open>put\<close> by a handler is a step of a producer (see the runs
  below); handlers that start or stop the engine are outside this model.
\<close>

type_synonym 'w behaviour = "HandlerType \<Rightarrow> Event \<Rightarrow> 'w \<Rightarrow> error option \<times> registry_call list \<times> 'w"

text \<open>
  A list comprehension \<open>[handler(event) for handler in xs]\<close> iterates over the list
  object \<open>xs\<close> itself, by position: the handler at the current position is called, then
  the position moves on, until it is no longer inside the list as it is by then. So what
  a handler does to that list while it is called shows in the rest of the iteration.

  The list object iterated is the list of general handlers (one object for the whole
  life of the engine), or the list the dictionary holds for a type when the iteration
  starts. \<open>register\<close> and \<open>unregister\<close> change that list in place; when \<open>unregister\<close>
  pops the entry, the object leaves the dictionary, empty, and a later \<open>register\<close> for the
  type creates another object: the iteration is then over an empty list for good.
\<close>

datatype iterated = TypeList string | GeneralList | Detached

definition list_object :: "EventEngine \<Rightarrow> iterated \<Rightarrow> HandlerType list" where
  "list_object self it =
     (case it of
        TypeList ty \<Rightarrow> (case handlers self ty of None \<Rightarrow> [] | Some hs \<Rightarrow> hs)
      | GeneralList \<Rightarrow> general_handlers self
      | Detached \<Rightarrow> [])"

text \<open>The calls a handler makes to the registry, one after the other.\<close>

fun handler_calls :: "iterated \<Rightarrow> EventEngine \<Rightarrow> registry_call list \<Rightarrow> iterated \<times> EventEngine" where
  "handler_calls it self [] = (it, self)"
| "handler_calls it self (c # cs) =
     (let self' = registry_apply self c;
          it' = (case it of
                   TypeList ty \<Rightarrow> if handlers self' ty = None then Detached else TypeList ty
                 | _ \<Rightarrow> it)
      in handler_calls it' self' cs)"

text \<open>
  The comprehension from position \<open>i\<close> on. An exception ends it at the handler that
  raised. The result is the outcome, the engine and the world the calls leave, and the
  handlers that were called, in order. The iteration need not end (handlers may keep
  extending the list), so the result is an option: \<open>None\<close> when it does not return.
\<close>

partial_function (option) call_handlers ::
  "'w behaviour \<Rightarrow> Event \<Rightarrow> iterated \<Rightarrow> nat \<Rightarrow> EventEngine \<Rightarrow> 'w \<Rightarrow> HandlerType list
     \<Rightarrow> ((error + unit) \<times> EventEngine \<times> HandlerType list \<times> 'w) option" where
  "call_handlers beh event it i self w called =
     (if i < length (list_object self it)
      then (case beh (list_object self it ! i) event w of
              (x, calls, w') \<Rightarrow>
                (case handler_calls it self calls of
                   (it', self') \<Rightarrow>
                     (case x of
                        Some e \<Rightarrow> Some (Inl e, self', called @ [list_object self it ! i], w')
                      | None \<Rightarrow>
                          call_handlers beh event it' (Suc i) self' w'
                            (called @ [list_object self it ! i]))))
      else Some (Inr (), self, called, w))"

definition process ::
  "'w behaviour \<Rightarrow> EventEngine \<Rightarrow> Event \<Rightarrow> 'w
     \<Rightarrow> ((error + unit) \<times> EventEngine \<times> HandlerType list \<times> 'w) option" where
  "process beh self event w =
     (case (if type event \<in> dom (handlers self)
            then call_handlers beh event (TypeList (type event)) 0 self w []
            else Some (Inr (), self, [], w)) of
        None \<Rightarrow> None
      | Some (Inl x, self', called, w') \<Rightarrow> Some (Inl x, self', called, w')
      | Some (Inr _, self', called, w') \<Rightarrow>
          (if general_handlers self' \<noteq> []
           then call_handlers beh event GeneralList 0 self' w' called
           else Some (Inr (), self', called, w')))"

subsection \<open>Publishing\<close>

text \<open>
  \<open>put\<close>: Python's \<open>hash\<close> of a string is fixed for the run of a process and differs
  between runs, so it is a parameter. \<open>%\<close> on integers takes the sign of the divisor, as
  \<open>mod\<close> on \<open>int\<close> does, and raises \<open>ZeroDivisionError\<close> for a zero divisor.
\<close>

definition put :: "(string \<Rightarrow> int) \<Rightarrow> EventEngine \<Rightarrow> Event \<Rightarrow> error + EventEngine" where
  "put hash self event =
     (if n self = 0 then Inl ZeroDivisionError
      else (let index = hash (type event) mod n self
            in case list_index (queues self) index of
                 None \<Rightarrow> Inl IndexError
               | Some k \<Rightarrow> Inr (self\<lparr>queues := (queues self)[k := queues self ! k @ [event]]\<rparr>)))"

subsection \<open>The worker loop\<close>

text \<open>
  What a worker does is observed as a list of dispatches: the index of the queue the
  event was taken from, the event, the handlers that were called for it, in order, and
  how \<open>_process\<close> ended. The state a worker runs in is the engine, the world of the
  handlers and the dispatches so far.
\<close>

datatype dispatch =
  Dispatch (d_index: nat) (d_event: Event) (d_called: "HandlerType list") (d_result: "error + unit")

type_synonym 'w state = "EventEngine \<times> 'w \<times> dispatch list"

text \<open>The two lines of \<open>_run\<close> before the loop: the index modulo \<open>n\<close>, and the queue at it.\<close>

definition run_index :: "EventEngine \<Rightarrow> int \<Rightarrow> error + nat" where
  "run_index self index =
     (if n self = 0 then Inl ZeroDivisionError
      else (case list_index (queues self) (index mod n self) of
              None \<Rightarrow> Inl IndexError
            | Some k \<Rightarrow> Inr k))"

text \<open>
  The \<open>try\<close> statement of the loop encloses \<open>queue.get\<close> and \<open>self._process(event)\<close>,
  and its \<open>except Empty: pass\<close> swallows \<open>Empty\<close> from either: from \<open>queue.get\<close> on an
  empty queue after the timeout, and from a handler that raises it. Every other
  exception leaves the \<open>try\<close> statement.
\<close>

definition except_Empty :: "error + unit \<Rightarrow> error + unit" where
  "except_Empty r = (case r of Inl x \<Rightarrow> if x = Empty then Inr () else Inl x | Inr u \<Rightarrow> Inr u)"

text \<open>
  The body of the \<open>while\<close> loop; \<open>None\<close> when the dispatch does not return. The
  diagnostic \<open>print\<close> after \<open>_process\<close> is not modelled.
\<close>

definition run_body :: "'w behaviour \<Rightarrow> nat \<Rightarrow> 'w state \<Rightarrow> ((error + unit) \<times> 'w state) option" where
  "run_body beh k st =
     (case st of (self, w, lg) \<Rightarrow>
        (case queues self ! k of
           [] \<Rightarrow> Some (except_Empty (Inl Empty), st)
         | event # rest \<Rightarrow>
             (case process beh (self\<lparr>queues := (queues self)[k := rest]\<rparr>) event w of
                None \<Rightarrow> None
              | Some (r, self', called, w') \<Rightarrow>
                  Some (except_Empty r, self', w', lg @ [Dispatch k event called r]))))"

text \<open>
  The loop \<open>while self._active\<close>, run with nothing else touching the engine. It need not
  end (an active engine with an empty queue polls for ever), so it takes fuel: \<open>None\<close>
  means that the loop has not returned when the fuel is used up, or that a dispatch does
  not return.
\<close>

fun run_loop :: "nat \<Rightarrow> 'w behaviour \<Rightarrow> nat \<Rightarrow> 'w state \<Rightarrow> ((error + unit) \<times> 'w state) option" where
  "run_loop 0 beh k st = None"
| "run_loop (Suc fuel) beh k st =
     (if \<not> active (fst st) then Some (Inr (), st)
      else (case run_body beh k st of
              None \<Rightarrow> None
            | Some (Inl x, st') \<Rightarrow> Some (Inl x, st')
            | Some (Inr _, st') \<Rightarrow> run_loop fuel beh k st'))"

definition run :: "nat \<Rightarrow> 'w behaviour \<Rightarrow> int \<Rightarrow> 'w state \<Rightarrow> ((error + unit) \<times> 'w state) option" where
  "run fuel beh index st =
     (case run_index (fst st) index of
        Inl x \<Rightarrow> Some (Inl x, st)
      | Inr k \<Rightarrow> run_loop fuel beh k st)"

subsection \<open>Starting and stopping\<close>

fun start_loop :: "nat list \<Rightarrow> Thread list \<Rightarrow> (error + unit) \<times> Thread list" where
  "start_loop [] ts = (Inr (), ts)"
| "start_loop (i # is) ts =
     (if i < length ts
      then (case Thread_start (ts ! i) of
              Inl x \<Rightarrow> (Inl x, ts)
            | Inr t \<Rightarrow> start_loop is (ts[i := t]))
      else (Inl IndexError, ts))"

definition start :: "EventEngine \<Rightarrow> (error + unit) \<times> EventEngine" where
  "start self =
     (let self1 = self\<lparr>active := True\<rparr>
      in case start_loop [0..<nat (n self1)] (threads self1) of
           (Inl x, ts) \<Rightarrow> (Inl x, self1\<lparr>threads := ts\<rparr>)
         | (Inr _, ts) \<Rightarrow>
             (case Thread_start (timer self1) of
                Inl x \<Rightarrow> (Inl x, self1\<lparr>threads := ts\<rparr>)
              | Inr t \<Rightarrow> (Inr (), self1\<lparr>threads := ts, timer := t\<rparr>)))"

fun join_loop :: "nat list \<Rightarrow> Thread list \<Rightarrow> (error + unit) \<times> Thread list" where
  "join_loop [] ts = (Inr (), ts)"
| "join_loop (i # is) ts =
     (if i < length ts
      then (case Thread_join (ts ! i) of
              Inl x \<Rightarrow> (Inl x, ts)
            | Inr t \<Rightarrow> join_loop is (ts[i := t]))
      else (Inl IndexError, ts))"

text \<open>
  \<open>stop\<close> clears the flag, joins the timer and then the workers. A join of a running
  thread is taken to return: with the flag cleared the timer and the workers leave their
  loops, provided the handler being run returns.
\<close>

definition stop :: "EventEngine \<Rightarrow> (error + unit) \<times> EventEngine" where
  "stop self =
     (let self1 = self\<lparr>active := False\<rparr>
      in case Thread_join (timer self1) of
           Inl x \<Rightarrow> (Inl x, self1)
         | Inr t \<Rightarrow>
             (let self2 = self1\<lparr>timer := t\<rparr>
              in case join_loop [0..<nat (n self2)] (threads self2) of
                   (r, ts) \<Rightarrow> (r, self2\<lparr>threads := ts\<rparr>)))"

subsection \<open>Producers and workers together\<close>

text \<open>
  The queues are thread-safe, so a run of the engine is an interleaving of two kinds of
  steps, in any order: a producer (a caller of \<open>put\<close>: the timer, a handler, any other
  thread) publishes an event, or the worker thread of one index goes once round its
  loop. A \<open>put\<close> that raises leaves the engine as it was. A worker that is not running
  does nothing; a running worker ends when it sees the flag cleared or when an exception
  leaves its loop. A step is \<open>None\<close> when the dispatch in it does not return.
\<close>

datatype action = Put Event | Work nat

definition worker_step :: "'w behaviour \<Rightarrow> nat \<Rightarrow> 'w state \<Rightarrow> 'w state option" where
  "worker_step beh i st =
     (case st of (self, w, lg) \<Rightarrow>
        if i < length (threads self) \<and> threads self ! i = Alive
        then (case run_index self (int i) of
                Inl x \<Rightarrow> Some (self\<lparr>threads := (threads self)[i := Finished]\<rparr>, w, lg)
              | Inr k \<Rightarrow>
                  if \<not> active self
                  then Some (self\<lparr>threads := (threads self)[i := Finished]\<rparr>, w, lg)
                  else (case run_body beh k st of
                          None \<Rightarrow> None
                        | Some (Inl x, self', w', lg') \<Rightarrow>
                            Some (self'\<lparr>threads := (threads self')[i := Finished]\<rparr>, w', lg')
                        | Some (Inr _, st') \<Rightarrow> Some st'))
        else Some st)"

fun step :: "(string \<Rightarrow> int) \<Rightarrow> 'w behaviour \<Rightarrow> 'w state \<Rightarrow> action \<Rightarrow> 'w state option" where
  "step hash beh (self, w, lg) (Put event) =
     (case put hash self event of Inl x \<Rightarrow> Some (self, w, lg) | Inr self' \<Rightarrow> Some (self', w, lg))"
| "step hash beh st (Work i) = worker_step beh i st"

fun exec :: "(string \<Rightarrow> int) \<Rightarrow> 'w behaviour \<Rightarrow> 'w state \<Rightarrow> action list \<Rightarrow> 'w state option" where
  "exec hash beh st [] = Some st"
| "exec hash beh st (a # acts) =
     (case step hash beh st a of None \<Rightarrow> None | Some st' \<Rightarrow> exec hash beh st' acts)"

subsection \<open>Notions used in the statements\<close>

text \<open>The handlers a dispatch of the event is due to call: those of its type, then the general ones.\<close>

definition applicable :: "EventEngine \<Rightarrow> Event \<Rightarrow> HandlerType list" where
  "applicable self event =
     (case handlers self (type event) of None \<Rightarrow> [] | Some hs \<Rightarrow> hs) @ general_handlers self"

text \<open>
  What calling the handlers of a list one after the other comes to, whatever they
  return or raise: the world they leave, and the calls to the registry they make.
\<close>

fun world_after :: "'w behaviour \<Rightarrow> Event \<Rightarrow> HandlerType list \<Rightarrow> 'w \<Rightarrow> 'w" where
  "world_after beh event [] w = w"
| "world_after beh event (h # hs) w = world_after beh event hs (snd (snd (beh h event w)))"

fun calls_made :: "'w behaviour \<Rightarrow> Event \<Rightarrow> HandlerType list \<Rightarrow> 'w \<Rightarrow> registry_call list" where
  "calls_made beh event [] w = []"
| "calls_made beh event (h # hs) w =
     fst (snd (beh h event w)) @ calls_made beh event hs (snd (snd (beh h event w)))"

text \<open>
  A call to the registry that cannot touch the two lists a dispatch of an event of type
  \<open>ty\<close> iterates: \<open>register\<close> or \<open>unregister\<close> for another type.
\<close>

definition foreign :: "string \<Rightarrow> registry_call \<Rightarrow> bool" where
  "foreign ty c =
     (case c of Register t h \<Rightarrow> t \<noteq> ty | Unregister t h \<Rightarrow> t \<noteq> ty
      | RegisterGeneral h \<Rightarrow> False | UnregisterGeneral h \<Rightarrow> False)"

text \<open>
  A handler does not disturb the dispatch of an event: called with it, in whatever
  world, it returns, and the calls it has made to the registry are foreign to the type
  of the event.
\<close>

definition quiet :: "'w behaviour \<Rightarrow> Event \<Rightarrow> HandlerType \<Rightarrow> bool" where
  "quiet beh event h \<longleftrightarrow>
     (\<forall>w. fst (beh h event w) = None \<and> (\<forall>c\<in>set (fst (snd (beh h event w))). foreign (type event) c))"

text \<open>
  The comprehension \<open>it\<close> of a dispatch of an event of type \<open>ty\<close> iterates the list
  \<open>hs\<close>, as the engine holds it.
\<close>

definition iterates :: "string \<Rightarrow> iterated \<Rightarrow> EventEngine \<Rightarrow> HandlerType list \<Rightarrow> bool" where
  "iterates ty it self hs \<longleftrightarrow>
     it = TypeList ty \<and> handlers self ty = Some hs \<or> it = GeneralList \<and> general_handlers self = hs"

text \<open>No handler ever raises \<open>Empty\<close> or calls the registry.\<close>

definition steady :: "'w behaviour \<Rightarrow> bool" where
  "steady beh \<longleftrightarrow>
     (\<forall>h event w. fst (beh h event w) \<noteq> Some Empty \<and> fst (snd (beh h event w)) = [])"

text \<open>No list of the registry holds a handler twice.\<close>

definition no_duplicates :: "EventEngine \<Rightarrow> bool" where
  "no_duplicates self \<longleftrightarrow>
     (\<forall>ty hs. handlers self ty = Some hs \<longrightarrow> distinct hs) \<and> distinct (general_handlers self)"

text \<open>No type is mapped to an empty list.\<close>

definition no_empty_entries :: "EventEngine \<Rightarrow> bool" where
  "no_empty_entries self \<longleftrightarrow> (\<forall>ty hs. handlers self ty = Some hs \<longrightarrow> hs \<noteq> [])"

text \<open>An engine as \<open>__init__\<close> lays it out for a positive number of shards.\<close>

definition well_formed :: "EventEngine \<Rightarrow> bool" where
  "well_formed self \<longleftrightarrow>
     1 \<le> n self \<and> length (queues self) = nat (n self) \<and> length (threads self) = nat (n self)"

text \<open>The events a sequence of steps publishes to the queue of index \<open>i\<close>, in order.\<close>

definition published_to :: "(string \<Rightarrow> int) \<Rightarrow> int \<Rightarrow> nat \<Rightarrow> action list \<Rightarrow> Event list" where
  "published_to hash k i acts =
     concat (map (\<lambda>a. case a of Put event \<Rightarrow> (if nat (hash (type event) mod k) = i then [event] else [])
                           | Work _ \<Rightarrow> []) acts)"

text \<open>The dispatches of the worker of index \<open>i\<close>.\<close>

definition dispatches_of :: "nat \<Rightarrow> dispatch list \<Rightarrow> dispatch list" where
  "dispatches_of i lg = filter (\<lambda>d. d_index d = i) lg"

text \<open>
  A dispatch is complete for a registry when \<open>_process\<close> returned and has called the
  handlers the registry holds for the event.
\<close>

definition complete :: "EventEngine \<Rightarrow> dispatch \<Rightarrow> bool" where
  "complete self d \<longleftrightarrow> d_result d = Inr () \<and> d_called d = applicable self (d_event d)"

text \<open>
  The world that the dispatches of a list, one after the other, leave when each of them
  calls the handlers recorded for it, in order.
\<close>

definition world_of :: "'w behaviour \<Rightarrow> dispatch list \<Rightarrow> 'w \<Rightarrow> 'w" where
  "world_of beh lg w = foldl (\<lambda>v d. world_after beh (d_event d) (d_called d) v) w lg"

text \<open>
  The events the worker of index \<open>i\<close> has taken from its queue, in order, followed by
  the events still waiting in that queue.
\<close>

definition shard_history :: "nat \<Rightarrow> 'w state \<Rightarrow> Event list" where
  "shard_history i st = (case st of (self, w, lg) \<Rightarrow> map d_event (dispatches_of i lg) @ queues self ! i)"

text \<open>
  What holds of the dispatches of the worker of index \<open>i\<close> in every state of a run:
  all but the last have ended with a return or with \<open>Empty\<close>, and the last has too as
  long as the worker is running.
\<close>

definition settled :: "nat \<Rightarrow> 'w state \<Rightarrow> bool" where
  "settled i st =
     (case st of (self, w, lg) \<Rightarrow>
        well_formed self
        \<and> (\<forall>d\<in>set (butlast (dispatches_of i lg)). except_Empty (d_result d) = Inr ())
        \<and> (i < length (threads self) \<and> threads self ! i = Alive \<longrightarrow>
             (\<forall>d\<in>set (dispatches_of i lg). except_Empty (d_result d) = Inr ())))"

text \<open>
  What holds in every state of a run of steady handlers from the world \<open>w0\<close> under the
  registry of \<open>reg\<close>: the registry is still that one, the world is the one the
  dispatches leave, the dispatches of the worker of index \<open>i\<close> but the last are
  complete, and the last is too as long as the worker is running.
\<close>

definition orderly :: "'w behaviour \<Rightarrow> nat \<Rightarrow> EventEngine \<Rightarrow> 'w \<Rightarrow> 'w state \<Rightarrow> bool" where
  "orderly beh i reg w0 st =
     (case st of (self, w, lg) \<Rightarrow>
        well_formed self \<and> handlers self = handlers reg \<and> general_handlers self = general_handlers reg
        \<and> w = world_of beh lg w0
        \<and> (\<forall>d\<in>set (butlast (dispatches_of i lg)). complete reg d)
        \<and> (i < length (threads self) \<and> threads self ! i = Alive \<longrightarrow>
             (\<forall>d\<in>set (dispatches_of i lg). complete reg d)))"

subsection \<open>Example handlers and engines\<close>

text \<open>
  Handlers that append their identity to the world, a list. The \<open>recording\<close> ones
  return and leave the registry alone. With \<open>raising x bad\<close> the handler \<open>bad\<close> raises
  \<open>x\<close> after having recorded itself. With \<open>leaving bad\<close> the handler \<open>bad\<close> unregisters
  itself from the type of the event it is called with.
\<close>

definition recording :: "HandlerType list behaviour" where
  "recording h ev w = (None, [], w @ [h])"

definition raising :: "error \<Rightarrow> HandlerType \<Rightarrow> HandlerType list behaviour" where
  "raising x bad h ev w = (if h = bad then Some x else None, [], w @ [h])"

definition leaving :: "HandlerType \<Rightarrow> HandlerType list behaviour" where
  "leaving bad h ev w = (None, if h = bad then [Unregister (type ev) h] else [], w @ [h])"

text \<open>One shard; handlers 0 and 1 for the type \<open>Y\<close>, handler 2 general.\<close>

definition example_registry :: EventEngine where
  "example_registry =
     foldl registry_apply (EventEngine_init 1 1)
       [Register ''Y'' 0, Register ''Y'' 1, RegisterGeneral 2]"

text \<open>
  The example engine started, two events of type \<open>Y\<close>, and the started engine with
  the first, or with both, in its queue.
\<close>

definition example_event :: Event where
  "example_event = \<lparr>type = ''Y'', data = PyInt 1\<rparr>"

definition example_event2 :: Event where
  "example_event2 = \<lparr>type = ''Y'', data = PyInt 2\<rparr>"

definition example_running :: EventEngine where
  "example_running = snd (start example_registry)"

definition example_queued :: EventEngine where
  "example_queued = example_running\<lparr>queues := [[example_event]]\<rparr>"

definition example_queued2 :: EventEngine where
  "example_queued2 = example_running\<lparr>queues := [[example_event, example_event2]]\<rparr>"

text \<open>A hash function for the examples; it is negative on short strings.\<close>

definition hash_length :: "string \<Rightarrow> int" where
  "hash_length s = int (length s) - 4"

text \<open>
  Two shards, started; handler 7 for the type \<open>abc\<close>, handler 9 general. Under
  \<open>hash_length\<close> the type \<open>abcd\<close> goes to shard 0 and the type \<open>abc\<close> to shard 1.
\<close>

definition example_two_shards :: EventEngine where
  "example_two_shards =
     snd (start (foldl registry_apply (EventEngine_init 1 2) [Register ''abc'' 7, RegisterGeneral 9]))"

definition event_a :: Event where
  "event_a = \<lparr>type = ''abcd'', data = PyNone\<rparr>"

definition event_b :: "int \<Rightarrow> Event" where
  "event_b k = \<lparr>type = ''abc'', data = PyInt k\<rparr>"

section \<open>Properties\<close>

subsection \<open>The operations in closed form\<close>

lemma register_eq:
  "register self ty h =
     self\<lparr>handlers := (handlers self)(ty \<mapsto>
        (case handlers self ty of None \<Rightarrow> [h] | Some hs \<Rightarrow> if h \<in> set hs then hs else hs @ [h]))\<rparr>"
  by (auto simp: register_def defaultdict_getitem_def fun_upd_idem split: option.splits)

lemma unregister_eq:
  "unregister self ty h =
     self\<lparr>handlers := (handlers self)(ty :=
        (case handlers self ty of None \<Rightarrow> None
         | Some hs \<Rightarrow> if remove1 h hs = [] then None else Some (remove1 h hs)))\<rparr>"
  by (auto simp: unregister_def defaultdict_getitem_def remove1_idem split: option.splits)

lemma register_general_eq:
  "register_general self h =
     self\<lparr>general_handlers := (if h \<in> set (general_handlers self) then general_handlers self
                                else general_handlers self @ [h])\<rparr>"
  by (simp add: register_general_def)

lemma unregister_general_eq:
  "unregister_general self h = self\<lparr>general_handlers := remove1 h (general_handlers self)\<rparr>"
  by (simp add: unregister_general_def remove1_idem)

lemma no_empty_entries_registry_apply:
  "no_empty_entries self \<Longrightarrow> no_empty_entries (registry_apply self c)"
  by (cases c)
     (auto simp: no_empty_entries_def register_eq unregister_eq register_general_eq
        unregister_general_eq split: option.splits if_splits)

lemma no_duplicates_registry_apply:
  "no_duplicates self \<Longrightarrow> no_duplicates (registry_apply self c)"
  by (cases c)
     (auto simp: no_duplicates_def register_eq unregister_eq register_general_eq
        unregister_general_eq split: option.splits if_splits)

lemma init_loop_eq: "init_loop k = (replicate (nat k) [], replicate (nat k) Unstarted)"
proof -
  have "foldl (\<lambda>(qs, ts) i. (qs @ [[]], ts @ [Unstarted])) (qs0, ts0) is
        = (qs0 @ replicate (length is) [], ts0 @ replicate (length is) Unstarted)"
    for "is" :: "nat list" and qs0 :: "Event list list" and ts0
    by (induction "is" arbitrary: qs0 ts0) (simp_all add: replicate_app_Cons_same)
  from this [of "[]" "[]" "[0..<nat k]"] show ?thesis
    by (simp add: init_loop_def)
qed

lemma EventEngine_init_eq:
  "EventEngine_init i k =
     \<lparr>interval = i, n = k, queues = replicate (nat k) [], threads = replicate (nat k) Unstarted,
      active = False, timer = Unstarted, handlers = Map.empty, general_handlers = []\<rparr>"
  by (simp add: EventEngine_init_def init_loop_eq)

lemma foldl_invariant:
  "P s \<Longrightarrow> (\<And>s c. P s \<Longrightarrow> P (f s c)) \<Longrightarrow> P (foldl f s cs)"
  by (induction cs arbitrary: s) simp_all

subsection \<open>Dispatch\<close>

lemma handler_calls_engine: "snd (handler_calls it self cs) = foldl registry_apply self cs"
  by (induction cs arbitrary: it self) (simp_all add: Let_def)

lemma foreign_apply:
  "foreign ty c \<Longrightarrow>
   handlers (registry_apply self c) ty = handlers self ty
   \<and> general_handlers (registry_apply self c) = general_handlers self"
  by (cases c) (simp_all add: foreign_def register_eq unregister_eq)

lemma foreign_calls:
  "\<forall>c\<in>set cs. foreign ty c \<Longrightarrow>
   handlers (foldl registry_apply self cs) ty = handlers self ty
   \<and> general_handlers (foldl registry_apply self cs) = general_handlers self"
proof (induction cs arbitrary: self)
  case Nil
  show ?case by simp
next
  case (Cons c cs)
  then have "foreign ty c" and "\<forall>c\<in>set cs. foreign ty c"
    by simp_all
  with Cons.IH [of "registry_apply self c"] foreign_apply [of ty c self] show ?case
    by simp
qed

lemma drop_eq_ConsD:
  "drop i xs = y # ys \<Longrightarrow> i < length xs \<and> xs ! i = y \<and> drop (Suc i) xs = ys"
proof -
  assume a: "drop i xs = y # ys"
  then have i: "i < length xs"
    by (cases "i < length xs") simp_all
  from Cons_nth_drop_Suc [OF i] a show ?thesis
    using i by simp
qed

lemma handler_calls_foreign:
  "\<forall>c\<in>set cs. foreign ty c \<Longrightarrow> iterates ty it self hs \<Longrightarrow>
   handler_calls it self cs = (it, foldl registry_apply self cs)"
proof (induction cs arbitrary: self)
  case Nil
  then show ?case by simp
next
  case (Cons c cs)
  from Cons.prems have f: "foreign ty c"
    by simp
  from foreign_apply [OF f, of self] Cons.prems(2)
  have keep: "iterates ty it (registry_apply self c) hs"
    by (auto simp: iterates_def)
  then have "(case it of TypeList t \<Rightarrow> if handlers (registry_apply self c) t = None then Detached else TypeList t
               | _ \<Rightarrow> it) = it"
    by (auto simp: iterates_def)
  with Cons.IH [OF _ keep] Cons.prems(1) show ?case
    by (simp add: Let_def)
qed

lemma iterates_foreign:
  "\<forall>c\<in>set cs. foreign ty c \<Longrightarrow> iterates ty it self hs \<Longrightarrow>
   iterates ty it (foldl registry_apply self cs) hs"
  using foreign_calls [of cs ty self] by (auto simp: iterates_def)

lemma iterates_list_object: "iterates ty it self hs \<Longrightarrow> list_object self it = hs"
  by (auto simp: iterates_def list_object_def)

lemma world_after_append:
  "world_after beh ev (xs @ ys) w = world_after beh ev ys (world_after beh ev xs w)"
  by (induction xs arbitrary: w) simp_all

lemma calls_made_append:
  "calls_made beh ev (xs @ ys) w = calls_made beh ev xs w @ calls_made beh ev ys (world_after beh ev xs w)"
  by (induction xs arbitrary: w) simp_all

lemma quiet_calls_made:
  "\<forall>h\<in>set hs. quiet beh ev h \<Longrightarrow> \<forall>c\<in>set (calls_made beh ev hs w). foreign (type ev) c"
  by (induction hs arbitrary: w) (auto simp: quiet_def)

text \<open>The comprehension over handlers that do not disturb it calls them all.\<close>

lemma call_handlers_quiet:
  "iterates (type ev) it self hs \<Longrightarrow> \<forall>h\<in>set (drop i hs). quiet beh ev h \<Longrightarrow>
   call_handlers beh ev it i self w called =
     Some (Inr (), foldl registry_apply self (calls_made beh ev (drop i hs) w),
           called @ drop i hs, world_after beh ev (drop i hs) w)"
proof (induction "length hs - i" arbitrary: i self w called)
  case 0
  then have "\<not> i < length (list_object self it)" and "drop i hs = []"
    by (simp_all add: iterates_list_object)
  then show ?case
    by (subst call_handlers.simps) simp
next
  case (Suc k)
  then have i: "i < length hs"
    by simp
  let ?h = "hs ! i"
  from i have d: "drop i hs = ?h # drop (Suc i) hs"
    by (simp add: Cons_nth_drop_Suc)
  obtain x cs w1 where b: "beh ?h ev w = (x, cs, w1)"
    by (cases "beh ?h ev w")
  from Suc.prems(2) d have q: "quiet beh ev ?h"
    by simp
  with b have x: "x = None" and cs: "\<forall>c\<in>set cs. foreign (type ev) c"
    by (auto simp: quiet_def dest: spec [of _ w])
  have hc: "handler_calls it self cs = (it, foldl registry_apply self cs)"
    using cs Suc.prems(1) by (rule handler_calls_foreign)
  have it': "iterates (type ev) it (foldl registry_apply self cs) hs"
    using cs Suc.prems(1) by (rule iterates_foreign)
  have rest: "\<forall>h\<in>set (drop (Suc i) hs). quiet beh ev h"
    using Suc.prems(2) d by simp
  have k: "k = length hs - Suc i"
    using Suc.hyps(2) by simp
  have "call_handlers beh ev it i self w called
          = call_handlers beh ev it (Suc i) (foldl registry_apply self cs) w1 (called @ [?h])"
    using i b x hc Suc.prems(1)
    by (subst call_handlers.simps) (simp add: iterates_list_object)
  also note Suc.hyps(1) [OF k it' rest]
  finally show ?case
    using b by (simp add: d)
qed

text \<open>
  The comprehension ends at the first handler that raises, when the handlers before it
  do not disturb it.
\<close>

lemma call_handlers_raise:
  assumes "iterates (type ev) it self hs" and "drop i hs = pre @ h # post"
    and "\<forall>g\<in>set pre. quiet beh ev g"
    and "beh h ev (world_after beh ev pre w) = (Some x, cs, w')"
  shows "call_handlers beh ev it i self w called =
     Some (Inl x, foldl registry_apply self (calls_made beh ev pre w @ cs), called @ pre @ [h], w')"
  using assms
proof (induction pre arbitrary: i self w called)
  case Nil
  then have i: "i < length hs" and h: "hs ! i = h"
    by (auto dest: drop_eq_ConsD)
  from Nil.prems(4) have b: "beh h ev w = (Some x, cs, w')"
    by simp
  show ?case
    using i h b Nil.prems(1) handler_calls_engine [of it self cs]
    by (subst call_handlers.simps) (auto simp: iterates_list_object split: prod.splits)
next
  case (Cons g pre)
  then have i: "i < length hs" and g: "hs ! i = g" and d: "drop (Suc i) hs = pre @ h # post"
    by (auto dest: drop_eq_ConsD)
  obtain y cs1 w1 where b: "beh g ev w = (y, cs1, w1)"
    by (cases "beh g ev w")
  from Cons.prems(3) b have y: "y = None" and cs1: "\<forall>c\<in>set cs1. foreign (type ev) c"
    by (auto simp: quiet_def dest: spec [of _ w])
  have hc: "handler_calls it self cs1 = (it, foldl registry_apply self cs1)"
    using cs1 Cons.prems(1) by (rule handler_calls_foreign)
  have it': "iterates (type ev) it (foldl registry_apply self cs1) hs"
    using cs1 Cons.prems(1) by (rule iterates_foreign)
  have "call_handlers beh ev it i self w called
          = call_handlers beh ev it (Suc i) (foldl registry_apply self cs1) w1 (called @ [g])"
    using i g b y hc Cons.prems(1)
    by (subst call_handlers.simps) (simp add: iterates_list_object)
  also have "\<dots> = Some (Inl x, foldl registry_apply (foldl registry_apply self cs1) (calls_made beh ev pre w1 @ cs),
                      (called @ [g]) @ pre @ [h], w')"
    using Cons.prems(3,4) b by (intro Cons.IH [OF it' d]) simp_all
  finally show ?case
    using b by simp
qed

lemma applicable_quiet_split:
  assumes "\<forall>h\<in>set (applicable self ev). quiet beh ev h"
  shows "\<forall>h\<in>set (case handlers self (type ev) of None \<Rightarrow> [] | Some hs \<Rightarrow> hs). quiet beh ev h"
    and "\<forall>h\<in>set (general_handlers self). quiet beh ev h"
  using assms by (simp_all add: applicable_def)

lemma process_general_only:
  "handlers self (type ev) = None \<Longrightarrow>
   process beh self ev w = call_handlers beh ev GeneralList 0 self w []"
proof -
  assume a: "handlers self (type ev) = None"
  have "call_handlers beh ev GeneralList 0 self w [] = Some (Inr (), self, [], w)"
    if "general_handlers self = []"
    using that by (subst call_handlers.simps) (simp add: list_object_def)
  with a show ?thesis
    by (simp add: process_def dom_def)
qed

lemma process_quiet:
  assumes "\<forall>h\<in>set (applicable self ev). quiet beh ev h"
  shows "process beh self ev w =
     Some (Inr (), foldl registry_apply self (calls_made beh ev (applicable self ev) w),
           applicable self ev, world_after beh ev (applicable self ev) w)"
proof -
  let ?gs = "general_handlers self"
  have general: "call_handlers beh ev GeneralList 0 eng v called =
       Some (Inr (), foldl registry_apply eng (calls_made beh ev ?gs v), called @ ?gs,
             world_after beh ev ?gs v)"
    if "general_handlers eng = ?gs" for eng v called
    using call_handlers_quiet [of ev GeneralList eng ?gs 0 beh v called] that
      applicable_quiet_split(2) [OF assms]
    by (simp add: iterates_def)
  show ?thesis
  proof (cases "handlers self (type ev)")
    case None
    then show ?thesis
      using general [of self w "[]"] by (simp add: process_general_only applicable_def)
  next
    case (Some hs)
    let ?eng = "foldl registry_apply self (calls_made beh ev hs w)"
    from applicable_quiet_split(1) [OF assms] Some have q: "\<forall>h\<in>set hs. quiet beh ev h"
      by simp
    have typed: "call_handlers beh ev (TypeList (type ev)) 0 self w [] =
        Some (Inr (), ?eng, hs, world_after beh ev hs w)"
      using call_handlers_quiet [of ev "TypeList (type ev)" self hs 0 beh w "[]"] Some q
      by (simp add: iterates_def)
    have same: "general_handlers ?eng = ?gs"
      using foreign_calls [OF quiet_calls_made [OF q, of w], of self] by simp
    show ?thesis
    proof (cases "?gs = []")
      case True
      with Some typed same show ?thesis
        by (simp add: process_def dom_def applicable_def)
    next
      case False
      with Some typed same general [OF same, of "world_after beh ev hs w" hs] show ?thesis
        by (simp add: process_def dom_def applicable_def world_after_append calls_made_append)
    qed
  qed
qed

lemma process_raise:
  assumes "applicable self ev = pre @ h # post"
    and "\<forall>g\<in>set pre. quiet beh ev g"
    and "beh h ev (world_after beh ev pre w) = (Some x, cs, w')"
  shows "process beh self ev w =
     Some (Inl x, foldl registry_apply self (calls_made beh ev pre w @ cs), pre @ [h], w')"
proof -
  let ?gs = "general_handlers self"
  define hs where "hs = (case handlers self (type ev) of None \<Rightarrow> [] | Some hs \<Rightarrow> hs)"
  from assms(1) have split: "hs @ ?gs = pre @ h # post"
    by (simp add: applicable_def hs_def)
  have typed_entry: "handlers self (type ev) = Some hs" if "hs \<noteq> []"
    using that by (auto simp: hs_def split: option.splits)
  from split consider (typed) post1 where "hs = pre @ h # post1"
    | (general) pre2 where "pre = hs @ pre2" "?gs = pre2 @ h # post"
    by (auto simp: append_eq_append_conv2 append_eq_Cons_conv Cons_eq_append_conv)
  then show ?thesis
  proof cases
    case typed
    then have entry: "handlers self (type ev) = Some hs"
      by (intro typed_entry) simp
    have "call_handlers beh ev (TypeList (type ev)) 0 self w [] =
        Some (Inl x, foldl registry_apply self (calls_made beh ev pre w @ cs), [] @ pre @ [h], w')"
      using entry typed assms(2,3)
      by (intro call_handlers_raise [where hs = hs and post = post1]) (simp_all add: iterates_def)
    with entry show ?thesis
      by (simp add: process_def dom_def)
  next
    case general
    let ?eng = "foldl registry_apply self (calls_made beh ev hs w)"
    from assms(2) general(1) have q: "\<forall>g\<in>set hs. quiet beh ev g" and q2: "\<forall>g\<in>set pre2. quiet beh ev g"
      by simp_all
    have same: "general_handlers ?eng = ?gs"
      using foreign_calls [OF quiet_calls_made [OF q, of w], of self] by simp
    have gen: "call_handlers beh ev GeneralList 0 ?eng (world_after beh ev hs w) hs =
        Some (Inl x, foldl registry_apply ?eng (calls_made beh ev pre2 (world_after beh ev hs w) @ cs),
              hs @ pre2 @ [h], w')"
      using same general(2) q2 assms(3) general(1)
      by (intro call_handlers_raise [where hs = ?gs and post = post])
         (simp_all add: iterates_def world_after_append)
    have nonempty: "?gs \<noteq> []"
      using general(2) by simp
    show ?thesis
    proof (cases "handlers self (type ev)")
      case None
      then have "hs = []"
        by (simp add: hs_def)
      with None gen nonempty general(1) show ?thesis
        by (simp add: process_def dom_def)
    next
      case (Some hs')
      then have hs': "hs' = hs"
        by (simp add: hs_def)
      have "call_handlers beh ev (TypeList (type ev)) 0 self w [] =
          Some (Inr (), ?eng, hs, world_after beh ev hs w)"
        using call_handlers_quiet [of ev "TypeList (type ev)" self hs 0 beh w "[]"] Some hs' q
        by (simp add: iterates_def)
      with Some gen same nonempty general(1) show ?thesis
        by (simp add: process_def dom_def calls_made_append)
    qed
  qed
qed

text \<open>A dispatch changes nothing of the engine but the registry.\<close>

lemma registry_apply_shell:
  "queues (registry_apply self c) = queues self \<and> n (registry_apply self c) = n self
   \<and> threads (registry_apply self c) = threads self \<and> active (registry_apply self c) = active self"
  by (cases c) (simp_all add: register_eq unregister_eq register_general_eq unregister_general_eq)

lemma registry_calls_shell:
  "queues (foldl registry_apply self cs) = queues self \<and> n (foldl registry_apply self cs) = n self
   \<and> threads (foldl registry_apply self cs) = threads self
   \<and> active (foldl registry_apply self cs) = active self"
  by (induction cs arbitrary: self) (simp_all add: registry_apply_shell)

lemma call_handlers_shell:
  "call_handlers beh ev it i self w called = Some y \<Longrightarrow>
   queues (fst (snd y)) = queues self \<and> n (fst (snd y)) = n self
   \<and> threads (fst (snd y)) = threads self \<and> active (fst (snd y)) = active self"
proof (induction beh ev it i self w called y
    rule: call_handlers.raw_induct [rotated, consumes 1, case_names step])
  case (step call_handlers beh ev it i self w called y)
  note 1 = step
  show ?case
  proof (cases "i < length (list_object self it)")
    case False
    with 1(2) show ?thesis by auto
  next
    case True
    obtain x cs w1 where b: "beh (list_object self it ! i) ev w = (x, cs, w1)"
      by (cases "beh (list_object self it ! i) ev w")
    obtain it' self' where hc: "handler_calls it self cs = (it', self')"
      by (cases "handler_calls it self cs")
    with handler_calls_engine [of it self cs] have self': "self' = foldl registry_apply self cs"
      by simp
    show ?thesis
    proof (cases x)
      case None
      with True b hc 1(2) have "call_handlers beh ev it' (Suc i) self' w1 (called @ [list_object self it ! i]) = Some y"
        by simp
      from 1(1) [OF this] self' registry_calls_shell [of self cs] show ?thesis
        by simp
    next
      case (Some e)
      with True b hc 1(2) self' registry_calls_shell [of self cs] show ?thesis
        by auto
    qed
  qed
qed

lemma process_shell:
  assumes "process beh self ev w = Some (r, self', called, w')"
  shows "queues self' = queues self \<and> n self' = n self
   \<and> threads self' = threads self \<and> active self' = active self"
proof -
  have ch: "queues s2 = queues s1 \<and> n s2 = n s1 \<and> threads s2 = threads s1 \<and> active s2 = active s1"
    if "call_handlers beh ev it i s1 v c = Some (r2, s2, c2, v2)" for it i s1 v c r2 s2 c2 v2
    using call_handlers_shell [OF that] by simp
  show ?thesis
  proof (cases "type ev \<in> dom (handlers self)")
    case False
    with assms ch show ?thesis
      by (auto simp: process_def split: if_splits)
  next
    case True
    with assms obtain r1 s1 c1 v1 where
      t: "call_handlers beh ev (TypeList (type ev)) 0 self w [] = Some (r1, s1, c1, v1)"
      by (auto simp: process_def split: option.splits)
    note s1 = ch [OF t]
    show ?thesis
    proof (cases r1)
      case (Inl e)
      with assms True t s1 show ?thesis
        by (simp add: process_def)
    next
      case (Inr u)
      with assms True t s1 ch show ?thesis
        by (auto simp: process_def split: if_splits)
    qed
  qed
qed

text \<open>One round of the comprehension, for computing examples.\<close>

lemma call_handlers_next:
  "i < length (list_object self it) \<Longrightarrow>
   call_handlers beh ev it i self w called =
     (case beh (list_object self it ! i) ev w of
        (x, calls, w') \<Rightarrow>
          (case handler_calls it self calls of
             (it', self') \<Rightarrow>
               (case x of
                  Some e \<Rightarrow> Some (Inl e, self', called @ [list_object self it ! i], w')
                | None \<Rightarrow>
                    call_handlers beh ev it' (Suc i) self' w' (called @ [list_object self it ! i]))))"
  by (subst call_handlers.simps) simp

lemma call_handlers_end:
  "\<not> i < length (list_object self it) \<Longrightarrow>
   call_handlers beh ev it i self w called = Some (Inr (), self, called, w)"
  by (subst call_handlers.simps) simp

lemma example_registry_eq:
  "example_registry =
     \<lparr>interval = 1, n = 1, queues = [[]], threads = [Unstarted], active = False, timer = Unstarted,
      handlers = [''Y'' \<mapsto> [0, 1]], general_handlers = [2]\<rparr>"
  by (simp add: example_registry_def EventEngine_init_eq register_eq register_general_eq)

lemmas dispatch_example =
  process_def call_handlers_next call_handlers_end list_object_def Let_def
  register_eq unregister_eq register_general_eq unregister_general_eq
  recording_def raising_def leaving_def example_event_def example_event2_def

text \<open>
  C1, as stated, fails. Take handlers 0 and 1 for the type \<open>Y\<close> and the general
  handler 2. When handler 1 raises, the general handler is never called for the event.
  When handler 0 unregisters itself while it is called, handler 1 moves to the position
  that has just been served, and is skipped.
\<close>

theorem process_order_counterexample:
  "handlers example_registry ''Y'' = Some [0, 1] \<and> general_handlers example_registry = [2]
   \<and> process (raising (HandlerError 7) 1) example_registry example_event []
        = Some (Inl (HandlerError 7), example_registry, [0, 1], [0, 1])
   \<and> process (leaving 0) example_registry example_event []
        = Some (Inr (), unregister example_registry ''Y'' 0, [0, 2], [0, 2])"
  by (simp add: example_registry_eq dispatch_example)

lemma register_fresh_list:
  "distinct (pre @ hs) \<Longrightarrow> handlers self ty = (if pre = [] then None else Some pre) \<Longrightarrow>
   handlers (foldl (\<lambda>s h. register s ty h) self hs) ty = (if pre @ hs = [] then None else Some (pre @ hs))"
proof (induction hs arbitrary: self pre)
  case Nil
  then show ?case by simp
next
  case (Cons h hs)
  have "handlers (register self ty h) ty = Some (pre @ [h])"
    using Cons.prems by (auto simp: register_eq)
  with Cons.IH [of "pre @ [h]" "register self ty h"] Cons.prems(1) show ?case
    by simp
qed

lemma register_general_fresh_list:
  "distinct (pre @ gs) \<Longrightarrow> general_handlers self = pre \<Longrightarrow>
   general_handlers (foldl register_general self gs) = pre @ gs"
proof (induction gs arbitrary: self pre)
  case Nil
  then show ?case by simp
next
  case (Cons g gs)
  have "general_handlers (register_general self g) = pre @ [g]"
    using Cons.prems by (auto simp: register_general_eq)
  with Cons.IH [of "pre @ [g]" "register_general self g"] Cons.prems(1) show ?case
    by simp
qed

text \<open>
  C1, amended. For every event whose dispatch no handler disturbs (each handler due for
  the event returns, and calls \<open>register\<close> or \<open>unregister\<close>, if at all, for other types
  only), \<open>_process\<close> calls first every handler registered for the type of the event (if
  the type has an entry), in the order of their list, and then every general handler, in
  the order of theirs: \<open>_process\<close> returns, and the world is the one that calling these
  handlers one after the other leaves. In particular every general handler is called for
  such an event when its type has no entry. The order of a list is the order of
  registration: \<open>register\<close> and \<open>register_general\<close> put a handler that is not in the
  list at its end.
\<close>

theorem process_order:
  assumes "\<forall>h\<in>set (applicable self ev). quiet beh ev h"
  shows "process beh self ev w =
           Some (Inr (), foldl registry_apply self (calls_made beh ev (applicable self ev) w),
                 (case handlers self (type ev) of None \<Rightarrow> [] | Some hs \<Rightarrow> hs) @ general_handlers self,
                 world_after beh ev
                   ((case handlers self (type ev) of None \<Rightarrow> [] | Some hs \<Rightarrow> hs) @ general_handlers self) w)
     \<and> (handlers self (type ev) = None \<longrightarrow>
          process beh self ev w =
            Some (Inr (), foldl registry_apply self (calls_made beh ev (general_handlers self) w),
                  general_handlers self, world_after beh ev (general_handlers self) w))
     \<and> (h \<notin> set (case handlers self ty of None \<Rightarrow> [] | Some hs \<Rightarrow> hs) \<longrightarrow>
          handlers (register self ty h) ty
            = Some ((case handlers self ty of None \<Rightarrow> [] | Some hs \<Rightarrow> hs) @ [h]))
     \<and> (h \<notin> set (general_handlers self) \<longrightarrow>
          general_handlers (register_general self h) = general_handlers self @ [h])
     \<and> (handlers self ty = None \<and> distinct hs \<and> hs \<noteq> [] \<longrightarrow>
          handlers (foldl (\<lambda>s h. register s ty h) self hs) ty = Some hs)
     \<and> (general_handlers self = [] \<and> distinct gs \<longrightarrow>
          general_handlers (foldl register_general self gs) = gs)"
proof -
  have p: "process beh self ev w =
           Some (Inr (), foldl registry_apply self (calls_made beh ev (applicable self ev) w),
                 (case handlers self (type ev) of None \<Rightarrow> [] | Some hs \<Rightarrow> hs) @ general_handlers self,
                 world_after beh ev
                   ((case handlers self (type ev) of None \<Rightarrow> [] | Some hs \<Rightarrow> hs) @ general_handlers self) w)"
    using process_quiet [OF assms, of w] by (simp add: applicable_def)
  have a: "handlers (register self ty h) ty
            = Some ((case handlers self ty of None \<Rightarrow> [] | Some hs \<Rightarrow> hs) @ [h])"
    if "h \<notin> set (case handlers self ty of None \<Rightarrow> [] | Some hs \<Rightarrow> hs)"
    using that by (auto simp: register_eq split: option.splits)
  have b: "handlers (foldl (\<lambda>s h. register s ty h) self hs) ty = Some hs"
    if "handlers self ty = None \<and> distinct hs \<and> hs \<noteq> []"
    using that register_fresh_list [of "[]" hs self ty] by simp
  have c: "general_handlers (foldl register_general self gs) = gs"
    if "general_handlers self = [] \<and> distinct gs"
    using that register_general_fresh_list [of "[]" gs self] by simp
  have g: "process beh self ev w =
            Some (Inr (), foldl registry_apply self (calls_made beh ev (general_handlers self) w),
                  general_handlers self, world_after beh ev (general_handlers self) w)"
    if "handlers self (type ev) = None"
    using that process_quiet [OF assms, of w] by (simp add: applicable_def)
  from p g a b c show ?thesis
    by (simp add: register_general_eq)
qed

theorem process_order_witness:
  "applicable example_registry example_event = [0, 1, 2]
   \<and> process recording example_registry example_event [] = Some (Inr (), example_registry, [0, 1, 2], [0, 1, 2])
   \<and> handlers example_registry ''Z'' = None
   \<and> process recording example_registry \<lparr>type = ''Z'', data = PyNone\<rparr> [5]
        = Some (Inr (), example_registry, [2], [5, 2])
   \<and> handlers (foldl (\<lambda>s h. register s ''Y'' h) (EventEngine_init 1 1) [0, 1]) ''Y'' = Some [0, 1]"
proof -
  let ?z = "\<lparr>type = ''Z'', data = PyNone\<rparr>"
  have q: "\<forall>h\<in>set (applicable example_registry ev). quiet recording ev h" for ev
    by (simp add: quiet_def recording_def)
  have a: "applicable example_registry example_event = [0, 1, 2]"
    by (simp add: applicable_def example_registry_eq example_event_def)
  have z: "handlers example_registry (type ?z) = None"
    by (simp add: example_registry_eq)
  have c: "calls_made recording ev hs v = []" for ev hs v
    by (induction hs arbitrary: v) (simp_all add: recording_def)
  have v: "world_after recording ev hs v = v @ hs" for ev hs v
    by (induction hs arbitrary: v) (simp_all add: recording_def)
  have i: "handlers (EventEngine_init 1 1) ''Y'' = None \<and> distinct [0, 1 :: nat] \<and> [0, 1 :: nat] \<noteq> []"
    by (simp add: EventEngine_init_eq)
  have q0: "\<forall>h\<in>set (applicable (EventEngine_init 1 1) example_event). quiet recording example_event h"
    by (simp add: applicable_def EventEngine_init_eq)
  note t = process_order [OF q, where ev = example_event and w = "[]", unfolded c v]
  note u = process_order [OF q, where ev = ?z and w = "[5]", unfolded c v]
  from t a have 1: "process recording example_registry example_event []
      = Some (Inr (), example_registry, [0, 1, 2], [0, 1, 2])"
    by (simp add: applicable_def)
  from u z have 2: "process recording example_registry ?z [5] = Some (Inr (), example_registry, [2], [5, 2])"
    by (simp add: example_registry_eq)
  from process_order [OF q0, where ty = "''Y''" and hs = "[0, 1]"] i
  have 3: "handlers (foldl (\<lambda>s h. register s ''Y'' h) (EventEngine_init 1 1) [0, 1]) ''Y'' = Some [0, 1]"
    by blast
  from a 1 2 3 z show ?thesis
    by simp
qed

subsection \<open>The registry\<close>

lemma count_list_distinct: "distinct xs \<Longrightarrow> x \<in> set xs \<Longrightarrow> count_list xs x = 1"
  by (induction xs) auto

lemma count_list_absent: "x \<notin> set xs \<Longrightarrow> count_list xs x = 0"
  by (induction xs) auto

lemma no_duplicates_init: "no_duplicates (EventEngine_init i k)"
  by (simp add: no_duplicates_def EventEngine_init_eq)

lemma no_duplicates_reachable:
  "no_duplicates (foldl registry_apply (EventEngine_init i k) calls)"
  by (rule foldl_invariant [where P = no_duplicates and f = registry_apply, OF no_duplicates_init no_duplicates_registry_apply])

text \<open>
  C3, as stated, fails in its last part. Handler 1, registered twice for the type \<open>Y\<close>,
  is not called at all for an event of type \<open>Y\<close> when handler 0, which is called before
  it, raises. Handler 2, registered twice for the type \<open>Y\<close> and also as a general
  handler, is called twice for one event.
\<close>

theorem register_twice_counterexample:
  "register (register example_registry ''Y'' 1) ''Y'' 1 = example_registry
   \<and> process (raising (HandlerError 0) 0) (register (register example_registry ''Y'' 1) ''Y'' 1)
        example_event [] = Some (Inl (HandlerError 0), example_registry, [0], [0])
   \<and> count_list [0] (1::nat) = 0
   \<and> register (register example_registry ''Y'' 2) ''Y'' 2 = register example_registry ''Y'' 2
   \<and> process recording (register (register example_registry ''Y'' 2) ''Y'' 2) example_event []
        = Some (Inr (), register example_registry ''Y'' 2, [0, 1, 2, 2], [0, 1, 2, 2])
   \<and> count_list [0, 1, 2, 2] (2::nat) = 2"
proof -
  have a: "register (register example_registry ''Y'' 1) ''Y'' 1 = example_registry"
    by (simp add: example_registry_eq register_eq)
  have b: "register (register example_registry ''Y'' 2) ''Y'' 2 = register example_registry ''Y'' 2"
    by (simp add: example_registry_eq register_eq)
  have c: "process (raising (HandlerError 0) 0) example_registry example_event []
             = Some (Inl (HandlerError 0), example_registry, [0], [0])"
    by (simp add: example_registry_eq dispatch_example)
  have d: "process recording (register example_registry ''Y'' 2) example_event []
        = Some (Inr (), register example_registry ''Y'' 2, [0, 1, 2, 2], [0, 1, 2, 2])"
    by (simp add: example_registry_eq dispatch_example)
  from a b c d show ?thesis
    by simp
qed

text \<open>
  C3, amended. Registering a handler for a type a second time changes nothing:
  \<open>register\<close> after \<open>register\<close> gives the engine of the first call, and \<open>register\<close> of
  a handler that is already in the list of the type returns the engine as it is. In a
  registry without duplicates (every registry built by the four operations is one,
  lemma \<open>no_duplicates_reachable\<close>) the handler is then in the list of the type exactly
  once. So a dispatch of an event of that type that no handler disturbs calls it once for
  this registration: exactly once when it is not a general handler too, and once more
  when it is.
\<close>

theorem register_twice:
  "register (register self ty h) ty h = register self ty h
   \<and> (\<forall>hs. handlers self ty = Some hs \<and> h \<in> set hs \<longrightarrow> register self ty h = self)
   \<and> (no_duplicates self \<longrightarrow>
        (\<exists>hs. handlers (register (register self ty h) ty h) ty = Some hs \<and> count_list hs h = 1)
        \<and> (\<forall>ev w. type ev = ty \<and> (\<forall>g\<in>set (applicable (register self ty h) ev). quiet beh ev g) \<longrightarrow>
              (\<exists>self' called.
                 process beh (register (register self ty h) ty h) ev w
                   = Some (Inr (), self', called,
                           world_after beh ev (applicable (register self ty h) ev) w)
                 \<and> count_list called h = 1 + count_list (general_handlers self) h
                 \<and> (h \<notin> set (general_handlers self) \<longrightarrow> count_list called h = 1))))"
proof (intro conjI allI impI)
  show idem: "register (register self ty h) ty h = register self ty h"
    by (simp add: register_eq split: option.splits)
  show "register self ty h = self" if "handlers self ty = Some hs \<and> h \<in> set hs" for hs
    using that by (simp add: register_eq fun_upd_idem)
  assume nd: "no_duplicates self"
  define hs where "hs = (case handlers self ty of None \<Rightarrow> [h]
                          | Some hs \<Rightarrow> if h \<in> set hs then hs else hs @ [h])"
  have entry: "handlers (register self ty h) ty = Some hs"
    by (simp add: register_eq hs_def)
  have "distinct hs" and "h \<in> set hs"
    using nd by (auto simp: hs_def no_duplicates_def split: option.splits)
  then have one: "count_list hs h = 1"
    by (rule count_list_distinct)
  from entry one show "\<exists>hs. handlers (register (register self ty h) ty h) ty = Some hs \<and> count_list hs h = 1"
    by (simp add: idem)
  show "\<exists>self' called.
          process beh (register (register self ty h) ty h) ev w
            = Some (Inr (), self', called, world_after beh ev (applicable (register self ty h) ev) w)
          \<and> count_list called h = 1 + count_list (general_handlers self) h
          \<and> (h \<notin> set (general_handlers self) \<longrightarrow> count_list called h = 1)"
    if "type ev = ty \<and> (\<forall>g\<in>set (applicable (register self ty h) ev). quiet beh ev g)"
    for ev w
  proof -
    from that have q: "\<forall>g\<in>set (applicable (register self ty h) ev). quiet beh ev g"
      by simp
    have app: "applicable (register self ty h) ev = hs @ general_handlers self"
      using that entry by (simp add: applicable_def register_eq)
    have "count_list (applicable (register self ty h) ev) h = 1 + count_list (general_handlers self) h"
      using one by (simp add: app)
    with process_quiet [OF q, of w] show ?thesis
      by (simp add: idem count_list_absent)
  qed
qed

theorem register_twice_witness:
  "no_duplicates example_registry
   \<and> handlers example_registry ''Y'' = Some [0, 1] \<and> 1 \<in> set [0, 1 :: nat]
   \<and> register (register example_registry ''Y'' 1) ''Y'' 1 = example_registry
   \<and> type example_event = ''Y''
   \<and> process recording (register (register example_registry ''Y'' 1) ''Y'' 1) example_event []
        = Some (Inr (), example_registry, [0, 1, 2], [0, 1, 2])
   \<and> 1 \<notin> set (general_handlers example_registry)
   \<and> count_list [0, 1, 2] (1::nat) = 1"
proof -
  have nd: "no_duplicates example_registry"
    by (simp add: no_duplicates_def example_registry_eq)
  have mem: "handlers example_registry ''Y'' = Some [0, 1] \<and> 1 \<in> set [0, 1 :: nat]"
    by (simp add: example_registry_eq)
  have ty: "type example_event = ''Y''"
    by (simp add: example_event_def)
  have q: "\<forall>g\<in>set (applicable (register example_registry ''Y'' 1) example_event). quiet recording example_event g"
    by (simp add: quiet_def recording_def)
  have g: "1 \<notin> set (general_handlers example_registry)"
    by (simp add: example_registry_eq)
  have p: "process recording example_registry example_event [] = Some (Inr (), example_registry, [0, 1, 2], [0, 1, 2])"
    by (simp add: example_registry_eq dispatch_example)
  note t = register_twice [of example_registry "''Y''" 1 recording]
  from t mem have same: "register example_registry ''Y'' 1 = example_registry"
    by blast
  from t nd ty q obtain self' called where
    "process recording (register (register example_registry ''Y'' 1) ''Y'' 1) example_event []
       = Some (Inr (), self', called,
               world_after recording example_event (applicable (register example_registry ''Y'' 1) example_event) [])"
    "1 \<notin> set (general_handlers example_registry) \<longrightarrow> count_list called 1 = 1"
    by blast
  with p same g have "count_list [0, 1, 2] (1::nat) = 1"
    by simp
  with nd mem ty p same g show ?thesis
    by simp
qed

text \<open>
  C4. From a registry with no entry for a type, \<open>register\<close> and then \<open>unregister\<close> of
  the same handler give back the engine as it was: the type has no entry at all, not an
  empty list, and the dispatch of an event of that type is the comprehension over the
  general handlers only.
\<close>

theorem register_unregister_prunes:
  assumes "handlers self ty = None"
  shows "unregister (register self ty h) ty h = self
         \<and> handlers (unregister (register self ty h) ty h) ty = None
         \<and> (type ev = ty \<longrightarrow>
              process beh (unregister (register self ty h) ty h) ev w
                = call_handlers beh ev GeneralList 0 self w [])"
proof -
  have restored: "unregister (register self ty h) ty h = self"
    using assms by (simp add: register_eq unregister_eq fun_upd_idem)
  have "process beh self ev w = call_handlers beh ev GeneralList 0 self w []" if "type ev = ty"
    using that assms by (simp add: process_general_only)
  with restored assms show ?thesis
    by simp
qed

theorem register_unregister_prunes_witness:
  "handlers example_registry ''X'' = None
   \<and> unregister (register example_registry ''X'' 5) ''X'' 5 = example_registry
   \<and> ''X'' \<notin> dom (handlers (unregister (register example_registry ''X'' 5) ''X'' 5))
   \<and> process recording (unregister (register example_registry ''X'' 5) ''X'' 5)
        \<lparr>type = ''X'', data = PyNone\<rparr> [] = Some (Inr (), example_registry, [2], [2])"
proof -
  have a: "handlers example_registry ''X'' = None"
    by (simp add: example_registry_eq)
  have b: "call_handlers recording \<lparr>type = ''X'', data = PyNone\<rparr> GeneralList 0 example_registry [] []
           = Some (Inr (), example_registry, [2], [2])"
    by (simp add: example_registry_eq dispatch_example)
  note t = register_unregister_prunes [OF a, of 5 "\<lparr>type = ''X'', data = PyNone\<rparr>" recording "[]"]
  from t have c: "unregister (register example_registry ''X'' 5) ''X'' 5 = example_registry"
    by blast
  from t b have d: "process recording (unregister (register example_registry ''X'' 5) ''X'' 5)
        \<lparr>type = ''X'', data = PyNone\<rparr> [] = Some (Inr (), example_registry, [2], [2])"
    by (elim conjE) simp
  from a c d show ?thesis
    by (simp add: dom_def)
qed

text \<open>
  C7. No type is mapped to an empty list: this holds of the registry of a new engine,
  each of \<open>register\<close>, \<open>unregister\<close>, \<open>register_general\<close> and \<open>unregister_general\<close>
  keeps it, and so it holds after every sequence of such calls on a new engine.
\<close>

theorem no_empty_entries_invariant:
  "no_empty_entries (EventEngine_init i k)
   \<and> (no_empty_entries self \<longrightarrow> no_empty_entries (registry_apply self c))
   \<and> no_empty_entries (foldl registry_apply (EventEngine_init i k) calls)
   \<and> (\<forall>ty hs. handlers (foldl registry_apply (EventEngine_init i k) calls) ty = Some hs \<longrightarrow> hs \<noteq> [])"
proof -
  have init: "no_empty_entries (EventEngine_init i k)"
    by (simp add: no_empty_entries_def EventEngine_init_eq)
  have all: "no_empty_entries (foldl registry_apply (EventEngine_init i k) calls)"
    by (rule foldl_invariant [where P = no_empty_entries and f = registry_apply, OF init no_empty_entries_registry_apply])
  from init all no_empty_entries_registry_apply show ?thesis
    unfolding no_empty_entries_def by blast
qed

theorem no_empty_entries_invariant_witness:
  "no_empty_entries example_registry
   \<and> no_empty_entries (registry_apply example_registry (Unregister ''Y'' 0))
   \<and> handlers (foldl registry_apply (EventEngine_init 1 1)
        [Register ''Y'' 0, Register ''Z'' 1, Unregister ''Y'' 0, Unregister ''Q'' 3]) ''Z'' = Some [1]
   \<and> handlers (foldl registry_apply (EventEngine_init 1 1)
        [Register ''Y'' 0, Register ''Z'' 1, Unregister ''Y'' 0, Unregister ''Q'' 3]) ''Y'' = None
   \<and> handlers (foldl registry_apply (EventEngine_init 1 1)
        [Register ''Y'' 0, Register ''Z'' 1, Unregister ''Y'' 0, Unregister ''Q'' 3]) ''Q'' = None
   \<and> [1::nat] \<noteq> []"
proof -
  have a: "no_empty_entries example_registry"
    using no_empty_entries_invariant
      [of 1 1 example_registry "Unregister ''Y'' 0" "[Register ''Y'' 0, Register ''Y'' 1, RegisterGeneral 2]"]
    by (simp add: example_registry_def)
  with no_empty_entries_invariant [of 1 1 example_registry "Unregister ''Y'' 0" "[]"]
  have b: "no_empty_entries (registry_apply example_registry (Unregister ''Y'' 0))"
    by blast
  have c: "handlers (foldl registry_apply (EventEngine_init 1 1)
        [Register ''Y'' 0, Register ''Z'' 1, Unregister ''Y'' 0, Unregister ''Q'' 3])
        = [''Z'' \<mapsto> [1]]"
    by (simp add: EventEngine_init_eq register_eq unregister_eq fun_eq_iff)
  from a b c show ?thesis
    by simp
qed

text \<open>
  C10. \<open>register\<close> and \<open>unregister\<close> for a type change at most the entry of that
  type: the result is the engine with that one entry replaced, so the general handlers
  and the entry of every other type are as before. \<open>register_general\<close> and
  \<open>unregister_general\<close> change the list of general handlers only, and leave the whole
  mapping from types to handlers as it is.
\<close>

theorem registry_frame:
  "register self ty h = self\<lparr>handlers := (handlers self)(ty := handlers (register self ty h) ty)\<rparr>
   \<and> unregister self ty h = self\<lparr>handlers := (handlers self)(ty := handlers (unregister self ty h) ty)\<rparr>
   \<and> general_handlers (register self ty h) = general_handlers self
   \<and> general_handlers (unregister self ty h) = general_handlers self
   \<and> (\<forall>ty'. ty' \<noteq> ty \<longrightarrow> handlers (register self ty h) ty' = handlers self ty'
                        \<and> handlers (unregister self ty h) ty' = handlers self ty')
   \<and> register_general self h = self\<lparr>general_handlers := general_handlers (register_general self h)\<rparr>
   \<and> unregister_general self h = self\<lparr>general_handlers := general_handlers (unregister_general self h)\<rparr>
   \<and> handlers (register_general self h) = handlers self
   \<and> handlers (unregister_general self h) = handlers self"
  by (simp add: register_eq unregister_eq register_general_eq unregister_general_eq)

theorem registry_frame_witness:
  "''Z'' \<noteq> ''Y''
   \<and> handlers (register example_registry ''Z'' 4) ''Y'' = Some [0, 1]
   \<and> handlers (unregister example_registry ''Z'' 4) ''Y'' = Some [0, 1]
   \<and> handlers example_registry ''Y'' = Some [0, 1]
   \<and> general_handlers (register example_registry ''Z'' 4) = [2]
   \<and> handlers (register_general example_registry 4) = handlers example_registry"
proof -
  have a: "''Z'' \<noteq> ''Y''" by simp
  have b: "handlers example_registry ''Y'' = Some [0, 1]" "general_handlers example_registry = [2]"
    by (simp_all add: example_registry_eq)
  from registry_frame [of example_registry "''Z''" 4] a b show ?thesis
    by simp
qed

subsection \<open>Publishing\<close>

lemma list_index_in_range:
  "0 \<le> i \<Longrightarrow> i < int (length xs) \<Longrightarrow> list_index xs i = Some (nat i)"
  by (simp add: list_index_def)

lemma shard_in_range:
  assumes "well_formed self"
  shows "0 \<le> h mod n self" and "h mod n self < int (length (queues self))"
    and "nat (h mod n self) < length (queues self)"
  using assms by (simp_all add: well_formed_def)

lemma put_eq:
  assumes "well_formed self"
  shows "put hash self ev =
     Inr (self\<lparr>queues := (queues self)[nat (hash (type ev) mod n self)
               := queues self ! nat (hash (type ev) mod n self) @ [ev]]\<rparr>)"
proof -
  from assms have "n self \<noteq> 0"
    by (simp add: well_formed_def)
  moreover have "list_index (queues self) (hash (type ev) mod n self) = Some (nat (hash (type ev) mod n self))"
    using shard_in_range(1,2) [OF assms] by (rule list_index_in_range)
  ultimately show ?thesis
    by (simp add: put_def)
qed

lemma well_formed_init: "1 \<le> k \<Longrightarrow> well_formed (EventEngine_init i k)"
  by (simp add: well_formed_def EventEngine_init_eq)

text \<open>
  C6. On an engine laid out by \<open>__init__\<close> for a shard count \<open>n\<close> of at least one,
  \<open>put\<close> appends the event to the queue at index \<open>hash (type event) mod n\<close>, which is an
  index of the list of queues, and changes nothing else; \<open>n\<close> is the value given at
  construction and \<open>put\<close> keeps it. The index depends on the type of the event only, so
  an event of the same type is appended to the queue of the same index, in whatever state
  the engine is by then.
\<close>

theorem put_routes_by_hash:
  assumes "well_formed self"
  shows "nat (hash (type ev) mod n self) < length (queues self)
     \<and> put hash self ev =
         Inr (self\<lparr>queues := (queues self)[nat (hash (type ev) mod n self)
                   := queues self ! nat (hash (type ev) mod n self) @ [ev]]\<rparr>)
     \<and> (\<forall>self'. put hash self ev = Inr self' \<longrightarrow> n self' = n self \<and> well_formed self')
     \<and> (\<forall>self' ev'. well_formed self' \<and> n self' = n self \<and> type ev' = type ev \<longrightarrow>
           put hash self' ev' =
             Inr (self'\<lparr>queues := (queues self')[nat (hash (type ev) mod n self)
                     := queues self' ! nat (hash (type ev) mod n self) @ [ev']]\<rparr>))
     \<and> (1 \<le> k \<longrightarrow> well_formed (EventEngine_init i k) \<and> n (EventEngine_init i k) = k)"
proof (intro conjI allI impI)
  show "nat (hash (type ev) mod n self) < length (queues self)"
    using assms by (rule shard_in_range(3))
  show "put hash self ev =
         Inr (self\<lparr>queues := (queues self)[nat (hash (type ev) mod n self)
                   := queues self ! nat (hash (type ev) mod n self) @ [ev]]\<rparr>)"
    using assms by (rule put_eq)
  show "n self' = n self" if "put hash self ev = Inr self'" for self'
    using that put_eq [OF assms, of hash ev] by auto
  show "well_formed self'" if "put hash self ev = Inr self'" for self'
    using that put_eq [OF assms, of hash ev] assms by (auto simp: well_formed_def)
  show "put hash self' ev' =
             Inr (self'\<lparr>queues := (queues self')[nat (hash (type ev) mod n self)
                     := queues self' ! nat (hash (type ev) mod n self) @ [ev']]\<rparr>)"
    if "well_formed self' \<and> n self' = n self \<and> type ev' = type ev" for self' ev'
    using that put_eq [of self' hash ev'] by simp
  show "well_formed (EventEngine_init i k)" if "1 \<le> k"
    using that by (rule well_formed_init)
  show "n (EventEngine_init i k) = k"
    by (simp add: EventEngine_init_eq)
qed

lemma EventEngine_init_1_2:
  "EventEngine_init 1 2 = \<lparr>interval = 1, n = 2, queues = [[], []], threads = [Unstarted, Unstarted],
      active = False, timer = Unstarted, handlers = Map.empty, general_handlers = []\<rparr>"
  by (simp add: EventEngine_init_eq numeral_2_eq_2)

theorem put_routes_by_hash_witness:
  "well_formed (EventEngine_init 1 2)
   \<and> hash_length ''abc'' = - 1
   \<and> put hash_length (EventEngine_init 1 2) \<lparr>type = ''abc'', data = PyInt 1\<rparr>
       = Inr ((EventEngine_init 1 2)\<lparr>queues := [[], [\<lparr>type = ''abc'', data = PyInt 1\<rparr>]]\<rparr>)
   \<and> put hash_length ((EventEngine_init 1 2)\<lparr>queues := [[], [\<lparr>type = ''abc'', data = PyInt 1\<rparr>]]\<rparr>)
         \<lparr>type = ''abc'', data = PyInt 2\<rparr>
       = Inr ((EventEngine_init 1 2)\<lparr>queues := [[], [\<lparr>type = ''abc'', data = PyInt 1\<rparr>,
                                                      \<lparr>type = ''abc'', data = PyInt 2\<rparr>]]\<rparr>)"
proof -
  have wf: "well_formed (EventEngine_init 1 2)"
    by (simp add: well_formed_def EventEngine_init_1_2)
  have k: "nat (hash_length (type \<lparr>type = ''abc'', data = PyInt 1\<rparr>) mod n (EventEngine_init 1 2)) = 1"
    by (simp add: hash_length_def EventEngine_init_1_2)
  note t = put_routes_by_hash [OF wf, of hash_length "\<lparr>type = ''abc'', data = PyInt 1\<rparr>" 2 1]
  from t have a: "put hash_length (EventEngine_init 1 2) \<lparr>type = ''abc'', data = PyInt 1\<rparr>
       = Inr ((EventEngine_init 1 2)\<lparr>queues := [[], [\<lparr>type = ''abc'', data = PyInt 1\<rparr>]]\<rparr>)"
    unfolding k by (elim conjE) (simp add: EventEngine_init_1_2)
  from t a have wf': "well_formed ((EventEngine_init 1 2)\<lparr>queues := [[], [\<lparr>type = ''abc'', data = PyInt 1\<rparr>]]\<rparr>)"
    by blast
  from t wf' have "put hash_length ((EventEngine_init 1 2)\<lparr>queues := [[], [\<lparr>type = ''abc'', data = PyInt 1\<rparr>]]\<rparr>)
         \<lparr>type = ''abc'', data = PyInt 2\<rparr>
       = Inr ((EventEngine_init 1 2)\<lparr>queues := [[], [\<lparr>type = ''abc'', data = PyInt 1\<rparr>,
                                                      \<lparr>type = ''abc'', data = PyInt 2\<rparr>]]\<rparr>)"
    unfolding k by (elim conjE) (simp add: EventEngine_init_1_2)
  with wf a show ?thesis
    by (simp add: hash_length_def)
qed

subsection \<open>Construction, start and stop\<close>

text \<open>
  C8, as stated, fails: \<open>__init__\<close> checks nothing, and a zero interval with a zero
  shard count gives an engine without queues.
\<close>

theorem construct_counterexample:
  "(0::int) \<le> 0 \<and> (0::int) < 1
   \<and> construct 0 0 = Inr (EventEngine_init 0 0)
   \<and> queues (EventEngine_init 0 0) = []
   \<and> threads (EventEngine_init 0 0) = []
   \<and> active (EventEngine_init 0 0) = False"
  by (simp add: construct_def EventEngine_init_eq)

text \<open>
  C8, amended. Construction accepts every interval and every shard count: it returns an
  engine that is not active (Stopped), with the interval and the count as given, with as
  many empty queues and unstarted worker threads as the count says (none for a count
  below one), an unstarted timer and an empty registry.
\<close>

theorem construct_never_rejects:
  "construct i k = Inr (EventEngine_init i k)
   \<and> interval (EventEngine_init i k) = i
   \<and> n (EventEngine_init i k) = k
   \<and> queues (EventEngine_init i k) = replicate (nat k) []
   \<and> threads (EventEngine_init i k) = replicate (nat k) Unstarted
   \<and> active (EventEngine_init i k) = False
   \<and> timer (EventEngine_init i k) = Unstarted
   \<and> handlers (EventEngine_init i k) = Map.empty
   \<and> general_handlers (EventEngine_init i k) = []"
  by (simp add: construct_def EventEngine_init_eq)

lemma start_loop_all:
  "distinct js \<Longrightarrow> \<forall>j\<in>set js. j < length ts \<and> ts ! j = Unstarted \<Longrightarrow>
   \<exists>ts'. start_loop js ts = (Inr (), ts') \<and> length ts' = length ts
         \<and> (\<forall>j<length ts. ts' ! j = (if j \<in> set js then Alive else ts ! j))"
proof (induction js arbitrary: ts)
  case Nil
  then show ?case by simp
next
  case (Cons i js)
  let ?ts = "ts[i := Alive]"
  have "\<forall>j\<in>set js. j < length ?ts \<and> ?ts ! j = Unstarted"
    using Cons.prems by (auto simp: nth_list_update)
  with Cons.IH [of ?ts] Cons.prems(1) obtain ts' where
    "start_loop js ?ts = (Inr (), ts')" "length ts' = length ts"
    "\<forall>j<length ts. ts' ! j = (if j \<in> set js then Alive else ?ts ! j)"
    by auto
  with Cons.prems show ?case
    by (auto simp: Thread_start_def nth_list_update)
qed

lemma join_loop_all:
  "\<forall>j\<in>set js. j < length ts \<and> ts ! j \<noteq> Unstarted \<Longrightarrow>
   \<exists>ts'. join_loop js ts = (Inr (), ts') \<and> length ts' = length ts
         \<and> (\<forall>j<length ts. ts' ! j = (if j \<in> set js then Finished else ts ! j))"
proof (induction js arbitrary: ts)
  case Nil
  then show ?case by simp
next
  case (Cons i js)
  let ?ts = "ts[i := Finished]"
  have "\<forall>j\<in>set js. j < length ?ts \<and> ?ts ! j \<noteq> Unstarted"
    using Cons.prems by (auto simp: nth_list_update)
  with Cons.IH [of ?ts] obtain ts' where
    "join_loop js ?ts = (Inr (), ts')" "length ts' = length ts"
    "\<forall>j<length ts. ts' ! j = (if j \<in> set js then Finished else ?ts ! j)"
    by auto
  with Cons.prems show ?case
    by (auto simp: Thread_join_def nth_list_update split: Thread.splits)
qed

lemma start_loop_fresh:
  "start_loop [0..<m] (replicate m Unstarted) = (Inr (), replicate m Alive)"
proof -
  from start_loop_all [of "[0..<m]" "replicate m Unstarted"]
  obtain ts' where "start_loop [0..<m] (replicate m Unstarted) = (Inr (), ts')"
    "length ts' = m" "\<forall>j<m. ts' ! j = Alive"
    by auto
  moreover from this have "ts' = replicate m Alive"
    by (intro nth_equalityI) simp_all
  ultimately show ?thesis by simp
qed

lemma join_loop_started:
  "\<forall>t\<in>set ts. t \<noteq> Unstarted \<Longrightarrow>
   join_loop [0..<length ts] ts = (Inr (), replicate (length ts) Finished)"
proof -
  assume "\<forall>t\<in>set ts. t \<noteq> Unstarted"
  with join_loop_all [of "[0..<length ts]" ts]
  obtain ts' where "join_loop [0..<length ts] ts = (Inr (), ts')"
    "length ts' = length ts" "\<forall>j<length ts. ts' ! j = Finished"
    by auto
  moreover from this have "ts' = replicate (length ts) Finished"
    by (intro nth_equalityI) simp_all
  ultimately show ?thesis by simp
qed

lemma stop_unstarted:
  "timer self = Unstarted \<Longrightarrow> stop self = (Inl RuntimeError, self\<lparr>active := False\<rparr>)"
  by (simp add: stop_def Thread_join_def)

lemma stop_started:
  assumes "timer self \<noteq> Unstarted" and "length (threads self) = nat (n self)"
    and "\<forall>t\<in>set (threads self). t \<noteq> Unstarted"
  shows "stop self = (Inr (), self\<lparr>active := False, timer := Finished,
                                  threads := replicate (nat (n self)) Finished\<rparr>)"
proof -
  from assms(1) have "Thread_join (timer self) = Inr Finished"
    by (cases "timer self") (simp_all add: Thread_join_def)
  moreover from join_loop_started [OF assms(3)] assms(2)
  have "join_loop [0..<nat (n self)] (threads self) = (Inr (), replicate (nat (n self)) Finished)"
    by simp
  ultimately show ?thesis
    by (simp add: stop_def)
qed

lemma start_fresh:
  "start (EventEngine_init i k) =
     (Inr (), (EventEngine_init i k)\<lparr>active := True, threads := replicate (nat k) Alive, timer := Alive\<rparr>)"
  by (simp add: start_def EventEngine_init_eq start_loop_fresh Thread_start_def)

text \<open>
  C9, as stated, fails: on an engine that was never started, \<open>stop\<close> raises
  \<open>RuntimeError\<close>, from joining the timer thread that was never started.
\<close>

theorem stop_counterexample:
  "active (EventEngine_init 1 5) = False
   \<and> stop (EventEngine_init 1 5) = (Inl RuntimeError, EventEngine_init 1 5)"
  by (simp add: stop_unstarted EventEngine_init_eq)

text \<open>
  C9, amended. On an engine that has been started and stopped (not active, timer and
  workers terminated) \<open>stop\<close> returns without error and leaves the engine as it is; a
  new engine that is started and then stopped is in that state. On an engine that was
  never started (not active, timer unstarted) \<open>stop\<close> raises \<open>RuntimeError\<close> and leaves
  the engine as it is.
\<close>

theorem stop_when_stopped:
  "(\<not> active self \<and> timer self = Finished \<and> length (threads self) = nat (n self)
      \<and> (\<forall>t\<in>set (threads self). t = Finished) \<longrightarrow> stop self = (Inr (), self))
   \<and> (\<not> active self \<and> timer self = Unstarted \<longrightarrow> stop self = (Inl RuntimeError, self))
   \<and> (\<exists>running stopped.
         start (EventEngine_init i k) = (Inr (), running) \<and> active running
         \<and> stop running = (Inr (), stopped) \<and> \<not> active stopped
         \<and> stop stopped = (Inr (), stopped))"
proof (intro conjI impI)
  assume a: "\<not> active self \<and> timer self = Finished \<and> length (threads self) = nat (n self)
      \<and> (\<forall>t\<in>set (threads self). t = Finished)"
  then have "threads self = replicate (nat (n self)) Finished"
    by (intro replicate_eqI) auto
  moreover from a have "stop self = (Inr (), self\<lparr>active := False, timer := Finished,
                                  threads := replicate (nat (n self)) Finished\<rparr>)"
    by (intro stop_started) auto
  ultimately show "stop self = (Inr (), self)"
    using a by simp
next
  assume "\<not> active self \<and> timer self = Unstarted"
  then show "stop self = (Inl RuntimeError, self)"
    by (simp add: stop_unstarted)
next
  let ?running = "(EventEngine_init i k)\<lparr>active := True, threads := replicate (nat k) Alive, timer := Alive\<rparr>"
  let ?stopped = "(EventEngine_init i k)\<lparr>threads := replicate (nat k) Finished, timer := Finished\<rparr>"
  have "stop ?running = (Inr (), ?stopped)"
    by (simp add: stop_started EventEngine_init_eq)
  moreover have "stop ?stopped = (Inr (), ?stopped)"
    by (simp add: stop_started EventEngine_init_eq)
  ultimately show "\<exists>running stopped.
         start (EventEngine_init i k) = (Inr (), running) \<and> active running
         \<and> stop running = (Inr (), stopped) \<and> \<not> active stopped
         \<and> stop stopped = (Inr (), stopped)"
    using start_fresh [of i k] by (auto simp: EventEngine_init_eq)
qed

theorem stop_when_stopped_witness:
  "stop (snd (stop (snd (start (EventEngine_init 1 2))))) = (Inr (), snd (stop (snd (start (EventEngine_init 1 2)))))
   \<and> snd (stop (snd (start (EventEngine_init 1 2))))
       = \<lparr>interval = 1, n = 2, queues = [[], []], threads = [Finished, Finished],
          active = False, timer = Finished, handlers = Map.empty, general_handlers = []\<rparr>
   \<and> \<not> active (EventEngine_init 1 2) \<and> timer (EventEngine_init 1 2) = Unstarted
   \<and> stop (EventEngine_init 1 2) = (Inl RuntimeError, EventEngine_init 1 2)"
proof -
  let ?s = "\<lparr>interval = 1, n = 2, queues = [[], []], threads = [Finished, Finished],
          active = False, timer = Finished, handlers = Map.empty, general_handlers = []\<rparr>"
  have "snd (start (EventEngine_init 1 2))
          = \<lparr>interval = 1, n = 2, queues = [[], []], threads = [Alive, Alive],
          active = True, timer = Alive, handlers = Map.empty, general_handlers = []\<rparr>"
    by (simp add: start_fresh) (simp add: EventEngine_init_eq numeral_2_eq_2)
  then have a: "snd (stop (snd (start (EventEngine_init 1 2)))) = ?s"
    by (simp add: stop_started numeral_2_eq_2)
  have b: "\<not> active ?s \<and> timer ?s = Finished \<and> length (threads ?s) = nat (n ?s)
      \<and> (\<forall>t\<in>set (threads ?s). t = Finished)"
    by simp
  have c: "\<not> active (EventEngine_init 1 2) \<and> timer (EventEngine_init 1 2) = Unstarted"
    by (simp add: EventEngine_init_eq)
  from stop_when_stopped [of ?s 1 2] b have d: "stop ?s = (Inr (), ?s)"
    by blast
  from stop_when_stopped [of "EventEngine_init 1 2" 1 2] c
  have e: "stop (EventEngine_init 1 2) = (Inl RuntimeError, EventEngine_init 1 2)"
    by blast
  from a c d e show ?thesis
    by simp
qed

subsection \<open>The worker loop\<close>

lemma applicable_queues [simp]: "applicable (self\<lparr>queues := qs\<rparr>) ev = applicable self ev"
  by (simp add: applicable_def)

lemma run_body_dequeue:
  "queues self ! k = ev # rest \<Longrightarrow>
   process beh (self\<lparr>queues := (queues self)[k := rest]\<rparr>) ev w = Some (r, self', called, w') \<Longrightarrow>
   run_body beh k (self, w, lg) = Some (except_Empty r, self', w', lg @ [Dispatch k ev called r])"
  by (simp add: run_body_def)

lemma run_body_empty:
  "queues self ! k = [] \<Longrightarrow> run_body beh k (self, w, lg) = Some (Inr (), self, w, lg)"
  by (simp add: run_body_def except_Empty_def)

lemma example_running_eq:
  "example_running =
     \<lparr>interval = 1, n = 1, queues = [[]], threads = [Alive], active = True, timer = Alive,
      handlers = [''Y'' \<mapsto> [0, 1]], general_handlers = [2]\<rparr>"
  by (simp add: example_running_def example_registry_eq start_def Thread_start_def)

lemma example_queued_dequeue:
  "example_queued\<lparr>queues := (queues example_queued)[0 := []]\<rparr> = example_running"
  by (simp add: example_queued_def example_running_eq)

text \<open>
  C2, as stated, fails: with handlers 0 and 1 registered for the type \<open>Y\<close> and handler 2
  general, an event of type \<open>Y\<close> on which handler 0 raises is dispatched to handler 0
  only, and the worker loop ends with the exception of handler 0.
\<close>

theorem raising_handler_counterexample:
  "put hash_length example_running example_event = Inr example_queued
   \<and> handlers example_queued ''Y'' = Some [0, 1]
   \<and> general_handlers example_queued = [2]
   \<and> active example_queued
   \<and> process (raising (HandlerError 0) 0) example_running example_event []
       = Some (Inl (HandlerError 0), example_running, [0], [0])
   \<and> run 3 (raising (HandlerError 0) 0) 0 (example_queued, [], [])
       = Some (Inl (HandlerError 0), example_running, [0],
               [Dispatch 0 example_event [0] (Inl (HandlerError 0))])"
proof -
  have p: "process (raising (HandlerError 0) 0) example_running example_event []
             = Some (Inl (HandlerError 0), example_running, [0], [0])"
    by (simp add: example_running_eq dispatch_example)
  have "queues example_queued ! 0 = example_event # []"
    by (simp add: example_queued_def)
  from run_body_dequeue [OF this, of "raising (HandlerError 0) 0" "[]", unfolded example_queued_dequeue, OF p, of "[]"]
  have "run_body (raising (HandlerError 0) 0) 0 (example_queued, [], [])
          = Some (Inl (HandlerError 0), example_running, [0], [Dispatch 0 example_event [0] (Inl (HandlerError 0))])"
    by (simp add: except_Empty_def)
  moreover have "run_index example_queued 0 = Inr 0"
    by (simp add: run_index_def list_index_def example_queued_def example_running_eq)
  moreover have a: "active example_queued"
    by (simp add: example_queued_def example_running_eq)
  ultimately have r: "run 3 (raising (HandlerError 0) 0) 0 (example_queued, [], [])
       = Some (Inl (HandlerError 0), example_running, [0],
               [Dispatch 0 example_event [0] (Inl (HandlerError 0))])"
    by (simp add: run_def numeral_3_eq_3)
  have q: "put hash_length example_running example_event = Inr example_queued"
    by (simp add: put_def list_index_def example_queued_def example_running_eq example_event_def
        hash_length_def)
  have h: "handlers example_queued ''Y'' = Some [0, 1] \<and> general_handlers example_queued = [2]"
    by (simp add: example_queued_def example_running_eq)
  from p r q a h show ?thesis
    by simp
qed

text \<open>
  C2, amended. If a handler raises while an event is dispatched (the handlers due before
  it not disturbing the dispatch), none of the handlers due after it, type-specific or
  general, is called for that event: \<open>_process\<close> ends with the exception, having called
  the handlers up to the one that raised. If the exception is not \<open>Empty\<close>, the worker
  loop that took the event from its queue ends with it, whatever fuel it is given. If it
  is \<open>Empty\<close>, the \<open>except\<close> clause of the loop swallows it: the round ends as one on an
  empty queue does, and the worker, still active, goes on with its loop.
\<close>

theorem raising_handler_ends_dispatch:
  assumes "applicable self ev = pre @ h # post"
    and "\<forall>g\<in>set pre. quiet beh ev g"
    and "beh h ev (world_after beh ev pre w) = (Some x, cs, w')"
    and "active eng" and "queues eng ! k = ev # rest"
    and "eng\<lparr>queues := (queues eng)[k := rest]\<rparr> = self"
  shows "process beh self ev w
           = Some (Inl x, foldl registry_apply self (calls_made beh ev pre w @ cs), pre @ [h], w')
     \<and> (x \<noteq> Empty \<longrightarrow>
          run_loop (Suc fuel) beh k (eng, w, lg)
            = Some (Inl x, foldl registry_apply self (calls_made beh ev pre w @ cs), w',
                    lg @ [Dispatch k ev (pre @ [h]) (Inl x)])
          \<and> (run_index eng index = Inr k \<longrightarrow>
               run (Suc fuel) beh index (eng, w, lg)
                 = Some (Inl x, foldl registry_apply self (calls_made beh ev pre w @ cs), w',
                         lg @ [Dispatch k ev (pre @ [h]) (Inl x)])))
     \<and> (x = Empty \<longrightarrow>
          run_body beh k (eng, w, lg)
            = Some (Inr (), foldl registry_apply self (calls_made beh ev pre w @ cs), w',
                    lg @ [Dispatch k ev (pre @ [h]) (Inl Empty)])
          \<and> active (foldl registry_apply self (calls_made beh ev pre w @ cs))
          \<and> run_loop (Suc fuel) beh k (eng, w, lg)
              = run_loop fuel beh k
                  (foldl registry_apply self (calls_made beh ev pre w @ cs), w',
                   lg @ [Dispatch k ev (pre @ [h]) (Inl Empty)]))"
proof -
  let ?self = "foldl registry_apply self (calls_made beh ev pre w @ cs)"
  have p: "process beh self ev w = Some (Inl x, ?self, pre @ [h], w')"
    using assms(1-3) by (rule process_raise)
  have body: "run_body beh k (eng, w, lg)
                = Some (except_Empty (Inl x), ?self, w', lg @ [Dispatch k ev (pre @ [h]) (Inl x)])"
    using assms(5) p [folded assms(6)] assms(6) by (simp add: run_body_dequeue)
  have act: "active ?self"
    using registry_calls_shell [of self "calls_made beh ev pre w @ cs"] assms(4,6) by auto
  have other: "run_loop (Suc fuel) beh k (eng, w, lg)
            = Some (Inl x, ?self, w', lg @ [Dispatch k ev (pre @ [h]) (Inl x)])" if "x \<noteq> Empty"
    using that body assms(4) by (simp add: except_Empty_def)
  have empty: "run_loop (Suc fuel) beh k (eng, w, lg)
              = run_loop fuel beh k (?self, w', lg @ [Dispatch k ev (pre @ [h]) (Inl Empty)])"
    if "x = Empty"
    using that body assms(4) by (simp add: except_Empty_def)
  from p body act other empty show ?thesis
    by (simp add: run_def except_Empty_def)
qed

theorem raising_handler_ends_dispatch_witness:
  "applicable example_running example_event = [0] @ 1 # [2]
   \<and> raising (HandlerError 4) 1 1 example_event [0] = (Some (HandlerError 4), [], [0, 1])
   \<and> raising Empty 1 1 example_event [0] = (Some Empty, [], [0, 1])
   \<and> active example_queued \<and> queues example_queued ! 0 = example_event # []
   \<and> run_index example_queued 0 = Inr 0
   \<and> process (raising (HandlerError 4) 1) example_running example_event []
        = Some (Inl (HandlerError 4), example_running, [0, 1], [0, 1])
   \<and> run 1 (raising (HandlerError 4) 1) 0 (example_queued, [], [])
        = Some (Inl (HandlerError 4), example_running, [0, 1],
                [Dispatch 0 example_event [0, 1] (Inl (HandlerError 4))])
   \<and> run_body (raising Empty 1) 0 (example_queued, [], [])
        = Some (Inr (), example_running, [0, 1], [Dispatch 0 example_event [0, 1] (Inl Empty)])
   \<and> run_loop 2 (raising Empty 1) 0 (example_queued, [], []) = None"
proof -
  have a: "applicable example_running example_event = [0] @ 1 # [2]"
    by (simp add: applicable_def example_running_eq example_event_def)
  have q: "\<forall>g\<in>set [0]. quiet (raising x 1) example_event g" for x
    by (simp add: quiet_def raising_def)
  have b: "raising x 1 1 example_event (world_after (raising x 1) example_event [0] [])
             = (Some x, [], [0, 1])" for x
    by (simp add: raising_def)
  have c: "calls_made (raising x 1) example_event [0] [] @ [] = []" for x
    by (simp add: raising_def)
  have d: "active example_queued" "queues example_queued ! 0 = example_event # []"
    "run_index example_queued 0 = Inr 0"
    by (simp_all add: run_index_def list_index_def example_queued_def example_running_eq)
  note t = raising_handler_ends_dispatch [OF a q b d(1,2) example_queued_dequeue,
      where fuel = 0 and lg = "[]" and index = 0, unfolded c, simplified]
  note u = raising_handler_ends_dispatch [OF a q b d(1,2) example_queued_dequeue,
      where fuel = "Suc 0" and lg = "[]" and index = 0, unfolded c, simplified]
  have e: "run_loop (Suc 0) (raising Empty 1) 0
             (example_running, [0, 1], [Dispatch 0 example_event [0, 1] (Inl Empty)]) = None"
    by (simp add: run_body_def example_running_eq except_Empty_def)
  from t [of "HandlerError 4"] d(3) have 1:
    "process (raising (HandlerError 4) 1) example_running example_event []
        = Some (Inl (HandlerError 4), example_running, [0, 1], [0, 1])"
    "run 1 (raising (HandlerError 4) 1) 0 (example_queued, [], [])
        = Some (Inl (HandlerError 4), example_running, [0, 1],
                [Dispatch 0 example_event [0, 1] (Inl (HandlerError 4))])"
    by simp_all
  from u [of Empty] e have 2:
    "run_body (raising Empty 1) 0 (example_queued, [], [])
        = Some (Inr (), example_running, [0, 1], [Dispatch 0 example_event [0, 1] (Inl Empty)])"
    "run_loop 2 (raising Empty 1) 0 (example_queued, [], []) = None"
    by (simp_all add: numeral_2_eq_2)
  from a b d 1 2 show ?thesis
    by (simp add: raising_def)
qed

subsection \<open>Runs of producers and workers\<close>

lemma run_index_worker:
  assumes "well_formed self" and "j < length (threads self)"
  shows "run_index self (int j) = Inr j"
proof -
  from assms have "int j < n self" and "n self \<noteq> 0" and "int j < int (length (queues self))"
    by (simp_all add: well_formed_def)
  then show ?thesis
    by (simp add: run_index_def list_index_in_range)
qed

text \<open>What a round of a running worker on an active engine comes to.\<close>

lemma worker_step_idle:
  "\<not> (j < length (threads self) \<and> threads self ! j = Alive) \<Longrightarrow>
   worker_step beh j (self, w, lg) = Some (self, w, lg)"
  by (auto simp: worker_step_def)

lemma worker_step_inactive:
  "well_formed self \<Longrightarrow> j < length (threads self) \<Longrightarrow> threads self ! j = Alive \<Longrightarrow> \<not> active self \<Longrightarrow>
   worker_step beh j (self, w, lg) = Some (self\<lparr>threads := (threads self)[j := Finished]\<rparr>, w, lg)"
  by (simp add: worker_step_def run_index_worker)

lemma worker_step_empty:
  "well_formed self \<Longrightarrow> j < length (threads self) \<Longrightarrow> threads self ! j = Alive \<Longrightarrow> active self \<Longrightarrow>
   queues self ! j = [] \<Longrightarrow> worker_step beh j (self, w, lg) = Some (self, w, lg)"
  by (simp add: worker_step_def run_index_worker run_body_empty)

lemma worker_step_dispatch:
  assumes "well_formed self" and "j < length (threads self)" and "threads self ! j = Alive"
    and "active self" and "queues self ! j = ev # rest"
  shows "worker_step beh j (self, w, lg) =
     (case process beh (self\<lparr>queues := (queues self)[j := rest]\<rparr>) ev w of
        None \<Rightarrow> None
      | Some (r, self', called, w') \<Rightarrow>
          Some (if except_Empty r = Inr () then self'
                else self'\<lparr>threads := (threads self')[j := Finished]\<rparr>,
                w', lg @ [Dispatch j ev called r]))"
  using assms
  by (auto simp: worker_step_def run_index_worker run_body_def split: option.splits sum.splits)

lemma published_to_Cons:
  "published_to hash k i (a # acts) = published_to hash k i [a] @ published_to hash k i acts"
  by (simp add: published_to_def)

lemma dispatches_of_snoc:
  "dispatches_of i (lg @ [d]) = (if d_index d = i then dispatches_of i lg @ [d] else dispatches_of i lg)"
  by (simp add: dispatches_of_def)

text \<open>A step keeps the layout of the engine, and extends the history of each shard.\<close>

lemma worker_step_keeps:
  assumes "well_formed self" and "i < length (queues self)"
    and "worker_step beh j (self, w, lg) = Some (self', w', lg')"
  shows "well_formed self' \<and> n self' = n self \<and> length (queues self') = length (queues self)
         \<and> shard_history i (self', w', lg') = shard_history i (self, w, lg)"
proof (cases "j < length (threads self) \<and> threads self ! j = Alive")
  case False
  with assms show ?thesis
    by (simp add: worker_step_idle)
next
  case alive: True
  show ?thesis
  proof (cases "active self")
    case False
    with alive assms show ?thesis
      by (auto simp: worker_step_inactive well_formed_def shard_history_def)
  next
    case True
    show ?thesis
    proof (cases "queues self ! j")
      case Nil
      with alive True assms show ?thesis
        by (simp add: worker_step_empty)
    next
      case (Cons ev rest)
      let ?deq = "self\<lparr>queues := (queues self)[j := rest]\<rparr>"
      from assms(3) alive True Cons assms(1) obtain r s called v where
        p: "process beh ?deq ev w = Some (r, s, called, v)"
        and res: "self' = (if except_Empty r = Inr () then s else s\<lparr>threads := (threads s)[j := Finished]\<rparr>)"
          "w' = v" "lg' = lg @ [Dispatch j ev called r]"
        by (auto simp: worker_step_dispatch split: option.splits)
      from process_shell [OF p] have s: "queues s = (queues self)[j := rest]" "n s = n self"
        "threads s = threads self"
        by simp_all
      from alive assms(1) have j: "j < length (queues self)"
        by (simp add: well_formed_def)
      have wf: "well_formed self'" "n self' = n self" "length (queues self') = length (queues self)"
        using res(1) s assms(1) by (auto simp: well_formed_def)
      have "queues self' = (queues self)[j := rest]"
        using res(1) s by auto
      then have "shard_history i (self', w', lg') = shard_history i (self, w, lg)"
        using res(3) Cons j assms(2)
        by (auto simp: shard_history_def dispatches_of_snoc nth_list_update)
      with wf show ?thesis
        by simp
    qed
  qed
qed

lemma step_keeps:
  assumes "well_formed self" and "i < length (queues self)"
    and "step hash beh (self, w, lg) a = Some (self', w', lg')"
  shows "well_formed self' \<and> n self' = n self \<and> length (queues self') = length (queues self)
         \<and> shard_history i (self', w', lg')
             = shard_history i (self, w, lg) @ published_to hash (n self) i [a]"
proof (cases a)
  case (Put ev)
  with assms show ?thesis
    by (auto simp: put_eq [OF assms(1)] well_formed_def shard_history_def published_to_def
        nth_list_update)
next
  case (Work j)
  with assms worker_step_keeps [OF assms(1,2), of beh j w lg self' w' lg'] show ?thesis
    by (simp add: published_to_def)
qed

lemma exec_history:
  "well_formed self \<Longrightarrow> i < length (queues self) \<Longrightarrow>
   exec hash beh (self, w, lg) acts = Some st' \<Longrightarrow>
   shard_history i st' = shard_history i (self, w, lg) @ published_to hash (n self) i acts"
proof (induction acts arbitrary: self w lg)
  case Nil
  then show ?case by (simp add: published_to_def)
next
  case (Cons a acts)
  from Cons.prems(3) obtain self1 w1 lg1 where
    s: "step hash beh (self, w, lg) a = Some (self1, w1, lg1)"
    and e: "exec hash beh (self1, w1, lg1) acts = Some st'"
    by (auto split: option.splits)
  from step_keeps [OF Cons.prems(1,2) s]
  have k: "well_formed self1" "n self1 = n self" "i < length (queues self1)"
    and h: "shard_history i (self1, w1, lg1)
              = shard_history i (self, w, lg) @ published_to hash (n self) i [a]"
    using Cons.prems(2) by simp_all
  from Cons.IH [OF k(1,3) e] k(2) h show ?case
    by (simp add: published_to_Cons [of hash "n self" i a acts])
qed

text \<open>Every dispatch of a shard is over before its worker takes the next event.\<close>

lemma worker_step_settled:
  assumes "settled i (self, w, lg)" and "worker_step beh j (self, w, lg) = Some st'"
  shows "settled i st'"
proof -
  from assms(1) have wf: "well_formed self"
    and past: "\<forall>d\<in>set (butlast (dispatches_of i lg)). except_Empty (d_result d) = Inr ()"
    and live: "i < length (threads self) \<and> threads self ! i = Alive \<longrightarrow>
                 (\<forall>d\<in>set (dispatches_of i lg). except_Empty (d_result d) = Inr ())"
    by (simp_all add: settled_def)
  show ?thesis
  proof (cases "j < length (threads self) \<and> threads self ! j = Alive")
    case False
    with assms show ?thesis
      by (simp add: worker_step_idle)
  next
    case alive: True
    show ?thesis
    proof (cases "active self")
      case False
      with alive wf have "worker_step beh j (self, w, lg)
          = Some (self\<lparr>threads := (threads self)[j := Finished]\<rparr>, w, lg)"
        by (intro worker_step_inactive) simp_all
      with assms alive show ?thesis
        by (auto simp: settled_def well_formed_def nth_list_update split: if_splits)
    next
      case True
      show ?thesis
      proof (cases "queues self ! j")
        case Nil
        with alive True wf have "worker_step beh j (self, w, lg) = Some (self, w, lg)"
          by (intro worker_step_empty) simp_all
        with assms show ?thesis
          by simp
      next
        case (Cons ev rest)
        let ?deq = "self\<lparr>queues := (queues self)[j := rest]\<rparr>"
        note ws = worker_step_dispatch [OF wf conjunct1 [OF alive] conjunct2 [OF alive] True Cons, of beh w lg]
        from assms(2) obtain r s called v where
          p: "process beh ?deq ev w = Some (r, s, called, v)"
          unfolding ws by (cases "process beh ?deq ev w") auto
        with assms(2) have
          st': "st' = (if except_Empty r = Inr () then s else s\<lparr>threads := (threads s)[j := Finished]\<rparr>,
                          v, lg @ [Dispatch j ev called r])"
          unfolding ws by simp
        from process_shell [OF p] have s: "queues s = (queues self)[j := rest]" "n s = n self"
          "threads s = threads self"
          by simp_all
        show ?thesis
        proof (cases "j = i")
          case True
          with alive live have all: "\<forall>d\<in>set (dispatches_of i lg). except_Empty (d_result d) = Inr ()"
            by simp
          with True s wf alive show ?thesis
            unfolding st' by (auto simp: settled_def well_formed_def dispatches_of_snoc)
        next
          case False
          with s wf past live show ?thesis
            unfolding st' by (auto simp: settled_def well_formed_def dispatches_of_snoc nth_list_update)
        qed
      qed
    qed
  qed
qed

lemma step_settled:
  assumes "settled i st" and "step hash beh st a = Some st'"
  shows "settled i st'"
proof -
  obtain self w lg where st: "st = (self, w, lg)"
    by (cases st)
  show ?thesis
  proof (cases a)
    case (Put ev)
    from assms st have wf: "well_formed self"
      by (simp add: settled_def)
    from assms show ?thesis
      unfolding st Put by (auto simp: put_eq [OF wf] settled_def well_formed_def)
  next
    case (Work j)
    with assms st show ?thesis
      by (auto intro: worker_step_settled)
  qed
qed

lemma exec_settled:
  "settled i st \<Longrightarrow> exec hash beh st acts = Some st' \<Longrightarrow> settled i st'"
proof (induction acts arbitrary: st)
  case Nil
  then show ?case by simp
next
  case (Cons a acts)
  from Cons.prems(2) obtain st1 where s: "step hash beh st a = Some st1"
    and e: "exec hash beh st1 acts = Some st'"
    by (auto split: option.splits)
  from Cons.IH [OF step_settled [OF Cons.prems(1) s] e] show ?case .
qed

text \<open>
  With steady handlers the registry stays as it is, every dispatch returns or ends with
  an exception other than \<open>Empty\<close>, and a dispatch that returns is complete.
\<close>

lemma call_handlers_steady:
  assumes "steady beh" and "iterates (type ev) it self hs"
  shows "\<exists>r c. call_handlers beh ev it i self w called
                  = Some (r, self, called @ c, world_after beh ev c w)
               \<and> (r = Inr () \<and> c = drop i hs \<or> (\<exists>x. r = Inl x \<and> x \<noteq> Empty))"
proof (induction "length hs - i" arbitrary: i w called)
  case 0
  then have "\<not> i < length (list_object self it)" and "drop i hs = []"
    using assms(2) by (simp_all add: iterates_list_object)
  then show ?case
    by (simp add: call_handlers_end)
next
  case (Suc k)
  then have i: "i < length (list_object self it)" and d: "drop i hs = hs ! i # drop (Suc i) hs"
    using assms(2) by (simp_all add: iterates_list_object Cons_nth_drop_Suc)
  let ?h = "hs ! i"
  have h: "list_object self it ! i = ?h"
    using assms(2) by (simp add: iterates_list_object)
  obtain x cs w1 where b: "beh ?h ev w = (x, cs, w1)"
    by (cases "beh ?h ev w")
  from assms(1) have "fst (beh ?h ev w) \<noteq> Some Empty \<and> fst (snd (beh ?h ev w)) = []"
    unfolding steady_def by blast
  with b have cs: "cs = []" and x: "x \<noteq> Some Empty"
    by simp_all
  show ?case
  proof (cases x)
    case (Some e)
    with i h b cs x have "call_handlers beh ev it i self w called
        = Some (Inl e, self, called @ [?h], world_after beh ev [?h] w) \<and> e \<noteq> Empty"
      by (simp add: call_handlers_next)
    then show ?thesis
      by blast
  next
    case None
    have k: "k = length hs - Suc i"
      using Suc.hyps(2) by simp
    from Suc.hyps(1) [OF k, of w1 "called @ [?h]"] obtain r c where
      rest: "call_handlers beh ev it (Suc i) self w1 (called @ [?h])
               = Some (r, self, (called @ [?h]) @ c, world_after beh ev c w1)"
      and res: "r = Inr () \<and> c = drop (Suc i) hs \<or> (\<exists>x. r = Inl x \<and> x \<noteq> Empty)"
      by blast
    from i h b cs None rest have "call_handlers beh ev it i self w called
        = Some (r, self, called @ ?h # c, world_after beh ev (?h # c) w)"
      by (simp add: call_handlers_next)
    with res d show ?thesis
      by auto
  qed
qed

lemma process_steady:
  assumes "steady beh"
  shows "\<exists>r c. process beh self ev w = Some (r, self, c, world_after beh ev c w)
               \<and> (r = Inr () \<and> c = applicable self ev \<or> (\<exists>x. r = Inl x \<and> x \<noteq> Empty))"
proof -
  let ?gs = "general_handlers self"
  have general: "\<exists>r c. call_handlers beh ev GeneralList 0 self v called
                  = Some (r, self, called @ c, world_after beh ev c v)
               \<and> (r = Inr () \<and> c = ?gs \<or> (\<exists>x. r = Inl x \<and> x \<noteq> Empty))" for v called
    using call_handlers_steady [OF assms, of ev GeneralList self ?gs 0 v called]
    by (simp add: iterates_def)
  show ?thesis
  proof (cases "handlers self (type ev)")
    case None
    with general [of w "[]"] show ?thesis
      by (simp add: process_general_only applicable_def)
  next
    case (Some hs)
    from call_handlers_steady [OF assms, of ev "TypeList (type ev)" self hs 0 w "[]"] Some
    obtain r1 c1 where
      t: "call_handlers beh ev (TypeList (type ev)) 0 self w [] = Some (r1, self, c1, world_after beh ev c1 w)"
      and r1: "r1 = Inr () \<and> c1 = hs \<or> (\<exists>x. r1 = Inl x \<and> x \<noteq> Empty)"
      by (auto simp: iterates_def)
    show ?thesis
    proof (cases r1)
      case (Inl x)
      with t r1 Some show ?thesis
        by (auto simp: process_def dom_def)
    next
      case (Inr u)
      with r1 have c1: "c1 = hs"
        by auto
      show ?thesis
      proof (cases "?gs = []")
        case True
        with t Inr c1 Some show ?thesis
          by (simp add: process_def dom_def applicable_def)
      next
        case False
        from general [of "world_after beh ev hs w" hs] obtain r c where
          g: "call_handlers beh ev GeneralList 0 self (world_after beh ev hs w) hs
                = Some (r, self, hs @ c, world_after beh ev c (world_after beh ev hs w))"
          and r: "r = Inr () \<and> c = ?gs \<or> (\<exists>x. r = Inl x \<and> x \<noteq> Empty)"
          by blast
        from t Inr c1 Some False g have "process beh self ev w
            = Some (r, self, hs @ c, world_after beh ev (hs @ c) w)"
          by (simp add: process_def dom_def world_after_append)
        with r Some show ?thesis
          by (auto simp: applicable_def)
      qed
    qed
  qed
qed

lemma world_of_snoc:
  "world_of beh (lg @ [d]) w = world_after beh (d_event d) (d_called d) (world_of beh lg w)"
  by (simp add: world_of_def)

lemma applicable_cong:
  "handlers self = handlers reg \<Longrightarrow> general_handlers self = general_handlers reg \<Longrightarrow>
   applicable self ev = applicable reg ev"
  by (simp add: applicable_def)

lemma worker_step_orderly:
  assumes "steady beh" and "orderly beh i reg w0 (self, w, lg)"
  shows "\<exists>st'. worker_step beh j (self, w, lg) = Some st' \<and> orderly beh i reg w0 st'"
proof -
  from assms(2) have wf: "well_formed self"
    and reg: "handlers self = handlers reg" "general_handlers self = general_handlers reg"
    and world: "w = world_of beh lg w0"
    and past: "\<forall>d\<in>set (butlast (dispatches_of i lg)). complete reg d"
    and live: "i < length (threads self) \<and> threads self ! i = Alive \<longrightarrow>
                 (\<forall>d\<in>set (dispatches_of i lg). complete reg d)"
    by (simp_all add: orderly_def)
  show ?thesis
  proof (cases "j < length (threads self) \<and> threads self ! j = Alive")
    case False
    with assms show ?thesis
      by (simp add: worker_step_idle)
  next
    case alive: True
    show ?thesis
    proof (cases "active self")
      case False
      with alive wf have "worker_step beh j (self, w, lg)
          = Some (self\<lparr>threads := (threads self)[j := Finished]\<rparr>, w, lg)"
        by (intro worker_step_inactive) simp_all
      with assms(2) alive show ?thesis
        by (auto simp: orderly_def well_formed_def nth_list_update split: if_splits)
    next
      case True
      show ?thesis
      proof (cases "queues self ! j")
        case Nil
        with alive True wf have "worker_step beh j (self, w, lg) = Some (self, w, lg)"
          by (intro worker_step_empty) simp_all
        with assms(2) show ?thesis
          by simp
      next
        case (Cons ev rest)
        let ?deq = "self\<lparr>queues := (queues self)[j := rest]\<rparr>"
        note ws = worker_step_dispatch [OF wf conjunct1 [OF alive] conjunct2 [OF alive] True Cons, of beh w lg]
        have app: "applicable ?deq ev = applicable reg ev"
          by (rule applicable_cong) (simp_all add: reg)
        from process_steady [OF assms(1), of ?deq ev w] obtain r c where
          p: "process beh ?deq ev w = Some (r, ?deq, c, world_after beh ev c w)"
          and r: "r = Inr () \<and> c = applicable reg ev \<or> (\<exists>x. r = Inl x \<and> x \<noteq> Empty)"
          unfolding app by blast
        let ?d = "Dispatch j ev c r"
        let ?w = "world_after beh ev c w"
        have w': "?w = world_of beh (lg @ [?d]) w0"
          using world by (simp add: world_of_snoc)
        from r show ?thesis
        proof
          assume ok: "r = Inr () \<and> c = applicable reg ev"
          then have step: "worker_step beh j (self, w, lg) = Some (?deq, ?w, lg @ [?d])"
            unfolding ws p by (simp add: except_Empty_def)
          have d: "complete reg ?d"
            using ok by (simp add: complete_def)
          have "orderly beh i reg w0 (?deq, ?w, lg @ [?d])"
          proof (cases "j = i")
            case True
            with alive live have "\<forall>d\<in>set (dispatches_of i lg). complete reg d"
              by simp
            with True d wf reg w' show ?thesis
              by (simp add: orderly_def well_formed_def dispatches_of_snoc)
          next
            case False
            with wf reg w' past live show ?thesis
              by (simp add: orderly_def well_formed_def dispatches_of_snoc)
          qed
          with step show ?thesis
            by simp
        next
          assume "\<exists>x. r = Inl x \<and> x \<noteq> Empty"
          then obtain x where x: "r = Inl x" "x \<noteq> Empty"
            by blast
          let ?fin = "?deq\<lparr>threads := (threads ?deq)[j := Finished]\<rparr>"
          from x have step: "worker_step beh j (self, w, lg) = Some (?fin, ?w, lg @ [?d])"
            unfolding ws p by (simp add: except_Empty_def)
          have "orderly beh i reg w0 (?fin, ?w, lg @ [?d])"
          proof (cases "j = i")
            case True
            with alive live have "\<forall>d\<in>set (dispatches_of i lg). complete reg d"
              by simp
            with True wf reg w' alive show ?thesis
              by (simp add: orderly_def well_formed_def dispatches_of_snoc)
          next
            case False
            with wf reg w' past live alive show ?thesis
              by (simp add: orderly_def well_formed_def dispatches_of_snoc nth_list_update)
          qed
          with step show ?thesis
            by simp
        qed
      qed
    qed
  qed
qed

lemma step_orderly:
  assumes "steady beh" and "orderly beh i reg w0 st"
  shows "\<exists>st'. step hash beh st a = Some st' \<and> orderly beh i reg w0 st'"
proof -
  obtain self w lg where st: "st = (self, w, lg)"
    by (cases st)
  show ?thesis
  proof (cases a)
    case (Put ev)
    from assms st have wf: "well_formed self"
      by (simp add: orderly_def)
    from assms(2) show ?thesis
      unfolding st Put by (simp add: put_eq [OF wf] orderly_def well_formed_def)
  next
    case (Work j)
    from worker_step_orderly [OF assms(1), of i reg w0 self w lg j] assms(2) show ?thesis
      unfolding st Work by simp
  qed
qed

lemma exec_orderly:
  "steady beh \<Longrightarrow> orderly beh i reg w0 st \<Longrightarrow>
   \<exists>st'. exec hash beh st acts = Some st' \<and> orderly beh i reg w0 st'"
proof (induction acts arbitrary: st)
  case Nil
  then show ?case by simp
next
  case (Cons a acts)
  from step_orderly [OF Cons.prems, of hash a] obtain st1 where
    "step hash beh st a = Some st1" "orderly beh i reg w0 st1"
    by blast
  with Cons.IH [OF Cons.prems(1), of st1] show ?case
    by simp
qed

text \<open>
  The steps of a worker in a run are the rounds of its loop \<open>_run\<close>: when the loop,
  run alone, ends within the fuel, that many steps of the worker reach the state the loop
  ends in, the thread being terminated.
\<close>

lemma finished_worker_idle:
  "\<not> (j < length (threads self) \<and> threads self ! j = Alive) \<Longrightarrow>
   exec hash beh (self, w, lg) (replicate m (Work j)) = Some (self, w, lg)"
  by (induction m) (simp_all add: worker_step_idle)

lemma worker_steps_follow_run_loop:
  "well_formed self \<Longrightarrow> j < length (threads self) \<Longrightarrow> threads self ! j = Alive \<Longrightarrow>
   run_loop fuel beh j (self, w, lg) = Some (r, self', w', lg') \<Longrightarrow>
   exec hash beh (self, w, lg) (replicate fuel (Work j))
     = Some (self'\<lparr>threads := (threads self')[j := Finished]\<rparr>, w', lg')"
proof (induction fuel arbitrary: self w lg)
  case 0
  then show ?case by simp
next
  case (Suc fuel)
  note wf = Suc.prems(1) and alive = Suc.prems(2,3) and loop = Suc.prems(4)
  show ?case
  proof (cases "active self")
    case False
    with loop have "self' = self" "w' = w" "lg' = lg"
      by simp_all
    with False worker_step_inactive [OF wf alive, of beh w lg] alive show ?thesis
      by (simp add: finished_worker_idle)
  next
    case True
    show ?thesis
    proof (cases "queues self ! j")
      case Nil
      with True loop have "run_loop fuel beh j (self, w, lg) = Some (r, self', w', lg')"
        by (simp add: run_body_empty)
      from Suc.IH [OF wf alive this] worker_step_empty [OF wf alive True Nil, of beh w lg] show ?thesis
        by simp
    next
      case (Cons ev rest)
      let ?deq = "self\<lparr>queues := (queues self)[j := rest]\<rparr>"
      from loop True Cons obtain r1 s called v where
        p: "process beh ?deq ev w = Some (r1, s, called, v)"
        by (auto simp: run_body_def split: option.splits)
      let ?lg = "lg @ [Dispatch j ev called r1]"
      have body: "run_body beh j (self, w, lg) = Some (except_Empty r1, s, v, ?lg)"
        using Cons p by (rule run_body_dequeue)
      from process_shell [OF p] have s: "queues s = (queues self)[j := rest]" "n s = n self"
        "threads s = threads self"
        by simp_all
      have step: "worker_step beh j (self, w, lg)
          = Some (if except_Empty r1 = Inr () then s else s\<lparr>threads := (threads s)[j := Finished]\<rparr>, v, ?lg)"
        using worker_step_dispatch [OF wf alive True Cons, of beh w lg] p by simp
      show ?thesis
      proof (cases "except_Empty r1")
        case (Inl x)
        with True loop body have "self' = s" "w' = v" "lg' = ?lg"
          by auto
        with Inl step alive s show ?thesis
          by (simp add: finished_worker_idle)
      next
        case (Inr u)
        with True loop body have rest: "run_loop fuel beh j (s, v, ?lg) = Some (r, self', w', lg')"
          by simp
        have "well_formed s" "j < length (threads s)" "threads s ! j = Alive"
          using wf alive s by (simp_all add: well_formed_def)
        from Suc.IH [OF this rest] Inr step show ?thesis
          by simp
      qed
    qed
  qed
qed

lemma example_two_shards_eq:
  "example_two_shards =
     \<lparr>interval = 1, n = 2, queues = [[], []], threads = [Alive, Alive], active = True, timer = Alive,
      handlers = [''abc'' \<mapsto> [7]], general_handlers = [9]\<rparr>"
  by (simp add: example_two_shards_def EventEngine_init_1_2 register_eq register_general_eq
      start_def Thread_start_def numeral_2_eq_2)

lemmas run_example =
  put_def list_index_def hash_length_def worker_step_def run_index_def run_body_def except_Empty_def
  dispatch_example event_a_def event_b_def

lemma two_shards_order_1:
  "exec hash_length recording (example_two_shards, [], [])
       [Put event_a, Put (event_b 1), Work 0, Work 1]
   = Some (example_two_shards, [9, 7, 9],
           [Dispatch 0 event_a [9] (Inr ()), Dispatch 1 (event_b 1) [7, 9] (Inr ())])"
  by (simp add: example_two_shards_eq run_example)

lemma two_shards_order_2:
  "exec hash_length recording (example_two_shards, [], [])
       [Put event_a, Put (event_b 1), Work 1, Work 0]
   = Some (example_two_shards, [7, 9, 9],
           [Dispatch 1 (event_b 1) [7, 9] (Inr ()), Dispatch 0 event_a [9] (Inr ())])"
  by (simp add: example_two_shards_eq run_example)

text \<open>
  C5, as stated, fails. With handlers 0 and 1 for the type \<open>Y\<close>, the general handler 2,
  and two events of type \<open>Y\<close> in the queue, let handler 0 raise \<open>Empty\<close>: the loop
  swallows the exception, so the first event has reached handler 0 only when the worker
  takes and dispatches the second.
\<close>

theorem shard_fifo_counterexample:
  "queues example_queued2 ! 0 = [example_event, example_event2]
   \<and> applicable example_queued2 example_event = [0, 1, 2]
   \<and> exec hash_length (raising Empty 0) (example_queued2, [], []) [Work 0, Work 0]
       = Some (example_running, [0, 0],
               [Dispatch 0 example_event [0] (Inl Empty), Dispatch 0 example_event2 [0] (Inl Empty)])"
  by (simp add: example_queued2_def example_running_eq run_example applicable_def)

text \<open>
  C5, amended. Take any interleaving of \<open>put\<close> calls and worker rounds on an engine laid
  out by \<open>__init__\<close>, from an empty record of dispatches, in which every dispatch
  returns. For every shard, the events its worker has dispatched, in the order of
  dispatch, followed by the events still in its queue, are the events that were in the
  queue at the start followed by the events published to that shard, in the order of
  publication: an event enqueued before another on the same shard is taken and
  dispatched before it. Every dispatch of the shard but the last has ended, with a
  return or with \<open>Empty\<close>, before the next event is taken. When no handler ever raises
  \<open>Empty\<close> or calls the registry, every step of the run is defined, every dispatch of
  the shard but the last is complete (\<open>_process\<close> returned, having called all handlers
  due for the event), and the world at the end is the one that the calls of the handlers
  leave, dispatch after dispatch: the earlier event has been dispatched to every handler
  before the later one is taken. Between shards there is no order: of two events
  published in the same order on different shards, either can be dispatched first,
  depending on which worker runs first.
\<close>

theorem shard_fifo:
  assumes "well_formed self" and "i < length (queues self)"
  shows "(\<forall>self' w' lg'. exec hash beh (self, w, []) acts = Some (self', w', lg') \<longrightarrow>
            map d_event (dispatches_of i lg') @ queues self' ! i
              = queues self ! i @ published_to hash (n self) i acts
            \<and> (\<forall>d\<in>set (butlast (dispatches_of i lg')). d_result d = Inr () \<or> d_result d = Inl Empty))
     \<and> (steady beh \<longrightarrow>
          (\<exists>self' lg'. exec hash beh (self, w, []) acts = Some (self', world_of beh lg' w, lg')
             \<and> (\<forall>d\<in>set (butlast (dispatches_of i lg')).
                   d_result d = Inr () \<and> d_called d = applicable self (d_event d))))
     \<and> exec hash_length recording (example_two_shards, [], [])
            [Put event_a, Put (event_b 1), Work 0, Work 1]
         = Some (example_two_shards, [9, 7, 9],
                 [Dispatch 0 event_a [9] (Inr ()), Dispatch 1 (event_b 1) [7, 9] (Inr ())])
     \<and> exec hash_length recording (example_two_shards, [], [])
            [Put event_a, Put (event_b 1), Work 1, Work 0]
         = Some (example_two_shards, [7, 9, 9],
                 [Dispatch 1 (event_b 1) [7, 9] (Inr ()), Dispatch 0 event_a [9] (Inr ())])"
proof (intro conjI allI impI)
  fix self' w' lg'
  assume e: "exec hash beh (self, w, []) acts = Some (self', w', lg')"
  from exec_history [OF assms e]
  show "map d_event (dispatches_of i lg') @ queues self' ! i
              = queues self ! i @ published_to hash (n self) i acts"
    by (simp add: shard_history_def dispatches_of_def)
  have "settled i (self, w, [])"
    using assms(1) by (simp add: settled_def dispatches_of_def)
  from exec_settled [OF this e]
  have "\<forall>d\<in>set (butlast (dispatches_of i lg')). except_Empty (d_result d) = Inr ()"
    by (simp add: settled_def)
  moreover have "r = Inr () \<or> r = Inl Empty" if "except_Empty r = Inr ()" for r
    using that by (cases r) (auto simp: except_Empty_def split: if_splits)
  ultimately show "\<forall>d\<in>set (butlast (dispatches_of i lg')). d_result d = Inr () \<or> d_result d = Inl Empty"
    by blast
next
  assume c: "steady beh"
  have "orderly beh i self w (self, w, [])"
    using assms(1) by (simp add: orderly_def world_of_def dispatches_of_def)
  from exec_orderly [OF c this, of hash acts]
  show "\<exists>self' lg'. exec hash beh (self, w, []) acts = Some (self', world_of beh lg' w, lg')
             \<and> (\<forall>d\<in>set (butlast (dispatches_of i lg')).
                   d_result d = Inr () \<and> d_called d = applicable self (d_event d))"
    by (auto simp: orderly_def complete_def)
next
  show "exec hash_length recording (example_two_shards, [], [])
            [Put event_a, Put (event_b 1), Work 0, Work 1]
         = Some (example_two_shards, [9, 7, 9],
                 [Dispatch 0 event_a [9] (Inr ()), Dispatch 1 (event_b 1) [7, 9] (Inr ())])"
    by (rule two_shards_order_1)
  show "exec hash_length recording (example_two_shards, [], [])
            [Put event_a, Put (event_b 1), Work 1, Work 0]
         = Some (example_two_shards, [7, 9, 9],
                 [Dispatch 1 (event_b 1) [7, 9] (Inr ()), Dispatch 0 event_a [9] (Inr ())])"
    by (rule two_shards_order_2)
qed

theorem shard_fifo_witness:
  "well_formed example_two_shards \<and> 1 < length (queues example_two_shards) \<and> steady recording
   \<and> exec hash_length recording (example_two_shards, [], [])
        [Put (event_b 1), Put event_a, Put (event_b 2), Work 1, Work 0, Put (event_b 3), Work 1]
      = Some (example_two_shards\<lparr>queues := [[], [event_b 3]]\<rparr>, [7, 9, 9, 7, 9],
              [Dispatch 1 (event_b 1) [7, 9] (Inr ()), Dispatch 0 event_a [9] (Inr ()),
               Dispatch 1 (event_b 2) [7, 9] (Inr ())])
   \<and> published_to hash_length (n example_two_shards) 1
        [Put (event_b 1), Put event_a, Put (event_b 2), Work 1, Work 0, Put (event_b 3), Work 1]
      = [event_b 1, event_b 2, event_b 3]
   \<and> map d_event (dispatches_of 1
        [Dispatch 1 (event_b 1) [7, 9] (Inr ()), Dispatch 0 event_a [9] (Inr ()),
         Dispatch 1 (event_b 2) [7, 9] (Inr ())]) @ [event_b 3]
      = [event_b 1, event_b 2, event_b 3]
   \<and> world_of recording
        [Dispatch 1 (event_b 1) [7, 9] (Inr ()), Dispatch 0 event_a [9] (Inr ()),
         Dispatch 1 (event_b 2) [7, 9] (Inr ())] []
      = [7, 9, 9, 7, 9]
   \<and> applicable example_two_shards (event_b 1) = [7, 9]"
proof -
  let ?acts = "[Put (event_b 1), Put event_a, Put (event_b 2), Work 1, Work 0, Put (event_b 3), Work 1]"
  let ?lg = "[Dispatch 1 (event_b 1) [7, 9] (Inr ()), Dispatch 0 event_a [9] (Inr ()),
         Dispatch 1 (event_b 2) [7, 9] (Inr ())]"
  have wf: "well_formed example_two_shards" and i: "1 < length (queues example_two_shards)"
    by (simp_all add: well_formed_def example_two_shards_eq)
  have c: "steady recording"
    by (simp add: steady_def recording_def)
  have e: "exec hash_length recording (example_two_shards, [], []) ?acts
             = Some (example_two_shards\<lparr>queues := [[], [event_b 3]]\<rparr>, [7, 9, 9, 7, 9], ?lg)"
    by (simp add: example_two_shards_eq run_example)
  have pub: "published_to hash_length (n example_two_shards) 1 ?acts = [event_b 1, event_b 2, event_b 3]"
    by (simp add: published_to_def example_two_shards_eq run_example)
  note t = shard_fifo [OF wf i, where hash = hash_length and beh = recording and w = "[]" and acts = ?acts]
  from t e have f: "map d_event (dispatches_of 1 ?lg) @ queues (example_two_shards\<lparr>queues := [[], [event_b 3]]\<rparr>) ! 1
             = queues example_two_shards ! 1 @ published_to hash_length (n example_two_shards) 1 ?acts"
    by blast
  from t c obtain self' lg' where
    x: "exec hash_length recording (example_two_shards, [], []) ?acts
          = Some (self', world_of recording lg' [], lg')"
    and y: "\<forall>d\<in>set (butlast (dispatches_of 1 lg')).
              d_result d = Inr () \<and> d_called d = applicable example_two_shards (d_event d)"
    by blast
  from x [unfolded e] have lg': "lg' = ?lg"
    and g0: "world_of recording lg' [] = [7, 9, 9, 7, 9]"
    by auto
  from g0 have g: "world_of recording ?lg [] = [7, 9, 9, 7, 9]"
    unfolding lg' .
  from y have a: "applicable example_two_shards (event_b 1) = [7, 9]"
    unfolding lg' by (auto simp: dispatches_of_def)
  from f have h: "map d_event (dispatches_of 1 ?lg) @ [event_b 3] = [event_b 1, event_b 2, event_b 3]"
    unfolding pub by (simp add: example_two_shards_eq)
  from wf i c e pub g a h show ?thesis
    by simp
qed

end
